theory Spec2Isabelle
  imports Main "HOL-Library.Word" "HOL-Library.Monad_Syntax"
begin

section \<open>The state model: three vessels of 16-bit water levels\<close>

text \<open>
  \<^verbatim>\<open>using water = uint16_t\<close>; \<^verbatim>\<open>class VesselsState: public std::array<water, 3>\<close>.
  The checked accessor \<^verbatim>\<open>at(i)\<close> of the array throws \<^verbatim>\<open>std::out_of_range\<close> for an
  index beyond 2; the model returns \<open>None\<close> there.
\<close>

type_synonym water = "16 word"

datatype VesselsState = VesselsState water water water

fun at_v :: "VesselsState \<Rightarrow> nat \<Rightarrow> water option" where
  "at_v (VesselsState a b c) i =
     (if i = 0 then Some a else if i = 1 then Some b else if i = 2 then Some c else None)"

fun set_at :: "VesselsState \<Rightarrow> nat \<Rightarrow> water \<Rightarrow> VesselsState option" where
  "set_at (VesselsState a b c) i w =
     (if i = 0 then Some (VesselsState w b c)
      else if i = 1 then Some (VesselsState a w c)
      else if i = 2 then Some (VesselsState a b w)
      else None)"

text \<open>
  \<^verbatim>\<open>type_max<water>()\<close> is \<^verbatim>\<open>std::numeric_limits<uint16_t>::max()\<close>, the
  largest 16-bit value.
\<close>

definition type_max :: water where
  "type_max = 65535"

text \<open>
  The hash \<^verbatim>\<open>operator()\<close>, computed in \<^verbatim>\<open>size_t\<close> (64 bits on the platforms the
  build file names).
\<close>

definition hash :: "VesselsState \<Rightarrow> 64 word" where
  "hash state =
     (case state of VesselsState s0 s1 s2 \<Rightarrow>
        (ucast s0 * ucast type_max + ucast s1) * ucast type_max + ucast s2)"

text \<open>
  \<^verbatim>\<open>transfer(src, dst, volumes)\<close>: reads go to \<^verbatim>\<open>*this\<close>, the compound assignments
  read and write the copy \<^verbatim>\<open>result\<close>, in the order of the source.
\<close>

definition transfer :: "nat \<Rightarrow> nat \<Rightarrow> VesselsState \<Rightarrow> VesselsState \<Rightarrow> VesselsState option" where
  "transfer src dst volumes this =
     do {
       vd \<leftarrow> at_v volumes dst;
       td \<leftarrow> at_v this dst;
       let dst_free = vd - td;
       ts \<leftarrow> at_v this src;
       if ts \<le> dst_free then
         do {
           rd \<leftarrow> at_v this dst;
           r1 \<leftarrow> set_at this dst (rd + ts);
           set_at r1 src 0
         }
       else
         do {
           rd \<leftarrow> at_v this dst;
           r1 \<leftarrow> set_at this dst (rd + dst_free);
           rs \<leftarrow> at_v r1 src;
           set_at r1 src (rs - dst_free)
         }
     }"

text \<open>The body of the inner \<^verbatim>\<open>for (to ...)\<close> loop of \<^verbatim>\<open>next_states\<close>, one target vessel.\<close>

definition pour_step :: "nat \<Rightarrow> nat \<Rightarrow> VesselsState \<Rightarrow> VesselsState \<Rightarrow> VesselsState list option" where
  "pour_step from to volumes this =
     (if from \<noteq> to then
        do {
          tt \<leftarrow> at_v this to;
          vt \<leftarrow> at_v volumes to;
          if tt < vt then
            do {
              tf \<leftarrow> at_v this from;
              if tf > 0 then
                do { r \<leftarrow> transfer from to volumes this; Some [r] }
              else Some []
            }
          else Some []
        }
      else Some [])"

text \<open>The loop \<^verbatim>\<open>for (unsigned to = 0; to < 3; to++)\<close>, appending in order.\<close>

definition pour_loop :: "nat \<Rightarrow> VesselsState \<Rightarrow> VesselsState \<Rightarrow> VesselsState list option" where
  "pour_loop from volumes this =
     do {
       p0 \<leftarrow> pour_step from 0 volumes this;
       p1 \<leftarrow> pour_step from 1 volumes this;
       p2 \<leftarrow> pour_step from 2 volumes this;
       Some (p0 @ p1 @ p2)
     }"

text \<open>The body of the outer \<^verbatim>\<open>for (from ...)\<close> loop: Fill, Drain, then the pours.\<close>

definition from_step :: "nat \<Rightarrow> VesselsState \<Rightarrow> VesselsState \<Rightarrow> VesselsState list option" where
  "from_step from volumes this =
     do {
       tf \<leftarrow> at_v this from;
       fill \<leftarrow> (if tf = 0 then
                  do { vf \<leftarrow> at_v volumes from; n \<leftarrow> set_at this from vf; Some [n] }
                else Some []);
       tf' \<leftarrow> at_v this from;
       drain \<leftarrow> (if tf' \<noteq> 0 then
                   do { n \<leftarrow> set_at this from 0; Some [n] }
                 else Some []);
       pours \<leftarrow> pour_loop from volumes this;
       Some (fill @ drain @ pours)
     }"

definition next_states :: "VesselsState \<Rightarrow> VesselsState \<Rightarrow> VesselsState list option" where
  "next_states this volumes =
     do {
       f0 \<leftarrow> from_step 0 volumes this;
       f1 \<leftarrow> from_step 1 volumes this;
       f2 \<leftarrow> from_step 2 volumes this;
       Some (f0 @ f1 @ f2)
     }"

fun contains :: "VesselsState \<Rightarrow> water \<Rightarrow> bool" where
  "contains (VesselsState a b c) volume = (a = volume \<or> b = volume \<or> c = volume)"

section \<open>The solvability hint of \<^verbatim>\<open>main\<close>\<close>

text \<open>
  \<^verbatim>\<open>gcd\<close> of \<^verbatim>\<open>utils.h\<close>, instantiated at \<^verbatim>\<open>uint16_t\<close> by the call in \<^verbatim>\<open>main\<close>: the
  remainder is computed after integer promotion and cast back, which on unsigned 16-bit
  operands is the remainder of the words.
\<close>

function gcd_w :: "water \<Rightarrow> water \<Rightarrow> water" where
  "gcd_w lhs rhs = (if rhs = 0 then lhs else gcd_w rhs (lhs mod rhs))"
  by pat_completeness auto

termination
  by (relation "measure (\<lambda>(lhs, rhs). unat rhs)") (auto simp: unat_mod unat_gt_0)

declare gcd_w.simps [simp del]

text \<open>The variadic overload at three arguments: \<^verbatim>\<open>gcd(gcd(lhs, rhs), args...)\<close>.\<close>

definition gcd_w3 :: "water \<Rightarrow> water \<Rightarrow> water \<Rightarrow> water" where
  "gcd_w3 lhs rhs arg = gcd_w (gcd_w lhs rhs) arg"

datatype error = Out_Of_Range | Assertion_Failed | Division_By_Zero

text \<open>
  The operator \<^verbatim>\<open>%\<close> on two \<^verbatim>\<open>water\<close> values: undefined for a zero divisor (a trap on
  the usual targets), which is the outcome \<open>Inl Division_By_Zero\<close>.
\<close>

definition rem_w :: "water \<Rightarrow> water \<Rightarrow> error + water" where
  "rem_w a b = (if b = 0 then Inl Division_By_Zero else Inr (a mod b))"

text \<open>
  The quick check of \<^verbatim>\<open>main\<close>: \<^verbatim>\<open>target % volume_gcd != 0\<close>, the flag that selects the
  "unsolvable" wording of the printed hint. The source takes the remainder at once,
  with no test of the divisor.
\<close>

definition quick_check :: "VesselsState \<Rightarrow> water \<Rightarrow> error + bool" where
  "quick_check volumes target =
     (case (at_v volumes 0, at_v volumes 1, at_v volumes 2) of
        (Some v0, Some v1, Some v2) \<Rightarrow>
          (let volume_gcd = gcd_w3 v0 v1 v2 in
           case rem_w target volume_gcd of
             Inl e \<Rightarrow> Inl e
           | Inr m \<Rightarrow> Inr (m \<noteq> 0))
      | _ \<Rightarrow> Inl Out_Of_Range)"

section \<open>The search engine\<close>

text \<open>
  \<^verbatim>\<open>class WaterPouringPuzzleSolver\<close>: the history is a vector of pairs of a state and
  the index of its predecessor (an \<^verbatim>\<open>int\<close>, -1 for the root), the visited states are an
  unordered set. A vector's \<^verbatim>\<open>at\<close> throws \<^verbatim>\<open>std::out_of_range\<close> beyond the end, a
  failed \<^verbatim>\<open>assert\<close> aborts: both are outcomes \<open>Inl\<close> of the model.

  The counter \<^verbatim>\<open>step\<close> and the predecessor indices are C++ \<^verbatim>\<open>int\<close>s, the positions in
  the history are \<^verbatim>\<open>size_t\<close>; the model counts in \<open>int\<close> and \<open>nat\<close>. Lemma
  \<open>solve_water_int_range\<close> below bounds all of them by the length of the history,
  and that by the product of the three capacities plus one each: whenever this product
  is below \<open>2 ^ 31\<close>, no counter of a run leaves the range of an \<^verbatim>\<open>int\<close>. Beyond that
  the model is the program on unbounded integers and memory.
\<close>

type_synonym History = "(VesselsState \<times> int) list"

type_synonym Visited = "VesselsState set"

record Solver =
  m_volumes :: VesselsState
  m_history :: History
  m_visited :: Visited

definition INVALID_IDX :: int where
  "INVALID_IDX = - 1"

text \<open>
  \<^verbatim>\<open>show(target, steps)\<close> prints the path; the model, \<open>show_path\<close> (\<open>show\<close> is a
  keyword of the proof language), returns the rows it prints, and leaves out the target,
  which is only printed. The asserts are checked, as in the default debug build; they
  never fail in a run of \<open>solve_water\<close> (lemma \<open>show_path_ok\<close>). Its first loop
  \<^verbatim>\<open>for (int pos = steps; pos != -1; --pos)\<close> walks the predecessor indices back from
  the last entry of the history and stores them into \<^verbatim>\<open>solution\<close> from the back; the
  recursion runs on the number of iterations left (\<open>pos + 1\<close>) and builds the same
  vector by consing. A negative \<^verbatim>\<open>history_idx\<close> cast to \<^verbatim>\<open>size_t\<close> is beyond every
  vector size, so \<^verbatim>\<open>at\<close> throws. The two asserts sit behind the read.
\<close>

primrec walk_back :: "History \<Rightarrow> nat \<Rightarrow> int \<Rightarrow> int list \<Rightarrow> error + int list" where
  "walk_back h 0 history_idx solution = Inr solution"
| "walk_back h (Suc pos) history_idx solution =
     (if 0 \<le> history_idx \<and> nat history_idx < length h then
        (let prev = snd (h ! nat history_idx) in
         if (if pos = 0 then prev = - 1 else prev \<ge> 0)
         then walk_back h pos prev (history_idx # solution)
         else Inl Assertion_Failed)
      else Inl Out_Of_Range)"

text \<open>The second loop of \<^verbatim>\<open>show\<close>: one row per entry of \<^verbatim>\<open>solution\<close>.\<close>

fun path_rows :: "History \<Rightarrow> int list \<Rightarrow> error + VesselsState list" where
  "path_rows h [] = Inr []"
| "path_rows h (i # rest) =
     (if 0 \<le> i \<and> nat i < length h then
        (case path_rows h rest of
           Inl e \<Rightarrow> Inl e
         | Inr rows \<Rightarrow> Inr (fst (h ! nat i) # rows))
      else Inl Out_Of_Range)"

definition show_path :: "int \<Rightarrow> History \<Rightarrow> error + VesselsState list" where
  "show_path steps h =
     (if steps \<le> 0 then Inr []
      else if h = [] then Inl Assertion_Failed
      else
        (case walk_back h (nat steps + 1) (int (length h) - 1) [] of
           Inl e \<Rightarrow> Inl e
         | Inr solution \<Rightarrow> path_rows h solution))"

text \<open>
  The loop \<^verbatim>\<open>for (const VesselsState new_state : old_state.next_states(m_volumes))\<close>
  of \<^verbatim>\<open>solve_water\<close>, over the successors not yet handled. The first component of the
  result is \<open>None\<close> when the loop runs to its end, \<open>Some (Inr step)\<close> for
  \<^verbatim>\<open>return step\<close>, and \<open>Some (Inl e)\<close> when \<^verbatim>\<open>show\<close> fails.
\<close>

fun visit_new ::
  "water \<Rightarrow> int \<Rightarrow> nat \<Rightarrow> VesselsState list \<Rightarrow> History \<Rightarrow> Visited \<Rightarrow>
     (error + int) option \<times> History \<times> Visited" where
  "visit_new target step ptr [] h vis = (None, h, vis)"
| "visit_new target step ptr (new_state # rest) h vis =
     (if new_state \<in> vis then visit_new target step ptr rest h vis
      else if contains new_state target then
        (case show_path step (h @ [(new_state, int ptr)]) of
           Inl e \<Rightarrow> (Some (Inl e), h @ [(new_state, int ptr)], insert new_state vis)
         | Inr rows \<Rightarrow> (Some (Inr step), h @ [(new_state, int ptr)], insert new_state vis))
      else visit_new target step ptr rest (h @ [(new_state, int ptr)]) (insert new_state vis))"

text \<open>The loop \<^verbatim>\<open>for (size_t ptr = old_ptr; ptr < next_ptr; ++ptr)\<close>.\<close>

function frontier_loop ::
  "VesselsState \<Rightarrow> water \<Rightarrow> int \<Rightarrow> nat \<Rightarrow> nat \<Rightarrow> History \<Rightarrow> Visited \<Rightarrow>
     (error + int) option \<times> History \<times> Visited" where
  "frontier_loop volumes target step ptr next_ptr h vis =
     (if ptr < next_ptr then
        (if ptr < length h then
           (case next_states (fst (h ! ptr)) volumes of
              None \<Rightarrow> (Some (Inl Out_Of_Range), h, vis)
            | Some succs \<Rightarrow>
                (case visit_new target step ptr succs h vis of
                   (None, h', vis') \<Rightarrow> frontier_loop volumes target step (ptr + 1) next_ptr h' vis'
                 | (Some r, h', vis') \<Rightarrow> (Some r, h', vis')))
         else (Some (Inl Out_Of_Range), h, vis))
      else (None, h, vis))"
  by pat_completeness auto

termination
  by (relation "measure (\<lambda>(volumes, target, step, ptr, next_ptr, h, vis). next_ptr - ptr)") auto

declare frontier_loop.simps [simp del]

text \<open>
  The loop \<^verbatim>\<open>while (old_ptr != m_history.size())\<close>. It ends because a round that
  appends to the history adds a state to the visited set, and there are finitely many
  states; the termination proof follows the lemmas it needs, in the section on the
  growth of the visited set.
\<close>

function solve_loop ::
  "VesselsState \<Rightarrow> water \<Rightarrow> int \<Rightarrow> nat \<Rightarrow> History \<Rightarrow> Visited \<Rightarrow>
     (error + int) \<times> History \<times> Visited" where
  "solve_loop volumes target step old_ptr h vis =
     (if old_ptr \<noteq> length h then
        (case frontier_loop volumes target (step + 1) old_ptr (length h) h vis of
           (None, h', vis') \<Rightarrow> solve_loop volumes target (step + 1) (length h) h' vis'
         | (Some r, h', vis') \<Rightarrow> (r, h', vis'))
      else (Inr (- 1), h, vis))"
  by pat_completeness auto

text \<open>\<^verbatim>\<open>init\<close>: the two \<^verbatim>\<open>clear\<close> calls (the \<^verbatim>\<open>reserve\<close> calls change no content).\<close>

definition init :: "Solver \<Rightarrow> Solver" where
  "init sv = sv\<lparr>m_history := [], m_visited := {}\<rparr>"

text \<open>
  \<^verbatim>\<open>solve_water\<close>, with the solver object before and after the call. The result is
  \<open>Inr\<close> of the returned \<^verbatim>\<open>int\<close>, or \<open>Inl\<close> of what was thrown. What the call
  prints besides the path is left out.
\<close>

definition solve_water :: "water \<Rightarrow> Solver \<Rightarrow> (error + int) \<times> Solver" where
  "solve_water target sv =
     (if target = 0 then (Inr 0, sv)
      else
        (let sv1 = init sv;
             sv2 = sv1\<lparr>m_visited := insert (VesselsState 0 0 0) (m_visited sv1)\<rparr>;
             sv3 = sv2\<lparr>m_visited := insert (m_volumes sv2) (m_visited sv2)\<rparr>;
             sv4 = sv3\<lparr>m_history := m_history sv3 @ [(VesselsState 0 0 0, INVALID_IDX)]\<rparr>
         in case solve_loop (m_volumes sv4) target 0 0 (m_history sv4) (m_visited sv4) of
              (r, h', vis') \<Rightarrow> (r, sv4\<lparr>m_history := h', m_visited := vis'\<rparr>)))"

text \<open>The constructor \<^verbatim>\<open>WaterPouringPuzzleSolver(volumes)\<close>.\<close>

definition solver :: "VesselsState \<Rightarrow> Solver" where
  "solver volumes = \<lparr>m_volumes = volumes, m_history = [], m_visited = {}\<rparr>"

section \<open>Vocabulary of the properties\<close>

text \<open>The level of vessel \<open>i\<close> as a natural number (0 beyond the third vessel).\<close>

definition lvl :: "VesselsState \<Rightarrow> nat \<Rightarrow> nat" where
  "lvl s i = (case at_v s i of Some w \<Rightarrow> unat w | None \<Rightarrow> 0)"

definition in_bounds :: "VesselsState \<Rightarrow> VesselsState \<Rightarrow> bool" where
  "in_bounds volumes s = (\<forall>i < 3. lvl s i \<le> lvl volumes i)"

definition total :: "VesselsState \<Rightarrow> nat" where
  "total s = lvl s 0 + lvl s 1 + lvl s 2"

text \<open>
  The three primitive operations as \<^verbatim>\<open>next_states\<close> performs them: the Fill and the
  Drain are the two assignments \<^verbatim>\<open>new_state.at(from) = ...\<close>, the Pour is \<open>transfer\<close>;
  each comes with the guard under which the loop body pushes it.
\<close>

definition fill_of :: "VesselsState \<Rightarrow> VesselsState \<Rightarrow> nat \<Rightarrow> VesselsState option" where
  "fill_of volumes s v = do { c \<leftarrow> at_v volumes v; set_at s v c }"

definition drain_of :: "VesselsState \<Rightarrow> nat \<Rightarrow> VesselsState option" where
  "drain_of s v = set_at s v 0"

definition is_fill :: "VesselsState \<Rightarrow> VesselsState \<Rightarrow> nat \<Rightarrow> VesselsState \<Rightarrow> bool" where
  "is_fill volumes s v t = (v < 3 \<and> lvl s v = 0 \<and> fill_of volumes s v = Some t)"

definition is_drain :: "VesselsState \<Rightarrow> nat \<Rightarrow> VesselsState \<Rightarrow> bool" where
  "is_drain s v t = (v < 3 \<and> lvl s v \<noteq> 0 \<and> drain_of s v = Some t)"

definition is_pour :: "VesselsState \<Rightarrow> VesselsState \<Rightarrow> nat \<Rightarrow> nat \<Rightarrow> VesselsState \<Rightarrow> bool" where
  "is_pour volumes s src dst t =
     (src < 3 \<and> dst < 3 \<and> src \<noteq> dst \<and> 0 < lvl s src \<and> lvl s dst < lvl volumes dst \<and>
      transfer src dst volumes s = Some t)"

text \<open>States reachable from the all-empty state by repeated \<open>next_states\<close>.\<close>

inductive reachable :: "VesselsState \<Rightarrow> VesselsState \<Rightarrow> bool" for volumes where
  start: "reachable volumes (VesselsState 0 0 0)"
| step: "reachable volumes s \<Longrightarrow> next_states s volumes = Some l \<Longrightarrow> t \<in> set l \<Longrightarrow>
     reachable volumes t"





text \<open>
  \<open>route volumes n s\<close>: \<open>n\<close> successor steps lead from the all-empty state to \<open>s\<close>,
  and no step enters the all-full state \<open>volumes\<close>. \<open>layer volumes k\<close> are the states
  whose shortest route has length \<open>k\<close>.
\<close>

inductive route :: "VesselsState \<Rightarrow> nat \<Rightarrow> VesselsState \<Rightarrow> bool" for volumes where
  route_start: "route volumes 0 (VesselsState 0 0 0)"
| route_step: "route volumes n s \<Longrightarrow> next_states s volumes = Some l \<Longrightarrow> t \<in> set l \<Longrightarrow>
     t \<noteq> volumes \<Longrightarrow> route volumes (Suc n) t"

definition layer :: "VesselsState \<Rightarrow> nat \<Rightarrow> VesselsState \<Rightarrow> bool" where
  "layer volumes k s = (route volumes k s \<and> (\<forall>j<k. \<not> route volumes j s))"

section \<open>Vocabulary of the proofs\<close>

text \<open>What a loop appends: new entries, each not visited before, no state twice.\<close>

definition grows :: "History \<Rightarrow> Visited \<Rightarrow> History \<Rightarrow> Visited \<Rightarrow> bool" where
  "grows h vis h' vis' =
     (\<exists>new. h' = h @ new \<and> vis' = vis \<union> fst ` set new \<and> fst ` set new \<inter> vis = {} \<and>
            distinct (map fst new))"

text \<open>
  For the proofs, the two inner loops of a round are one scan over the candidate pairs
  (successor, index of the frontier entry it comes from), in the order the loops visit
  them; \<open>frontier_loop_scan\<close> shows that the loops compute this scan.
\<close>

fun scan ::
  "water \<Rightarrow> int \<Rightarrow> (VesselsState \<times> nat) list \<Rightarrow> History \<Rightarrow> Visited \<Rightarrow>
     (error + int) option \<times> History \<times> Visited" where
  "scan target step [] h vis = (None, h, vis)"
| "scan target step ((t, j) # rest) h vis =
     (if t \<in> vis then scan target step rest h vis
      else if contains t target then
        (case show_path step (h @ [(t, int j)]) of
           Inl e \<Rightarrow> (Some (Inl e), h @ [(t, int j)], insert t vis)
         | Inr rows \<Rightarrow> (Some (Inr step), h @ [(t, int j)], insert t vis))
      else scan target step rest (h @ [(t, int j)]) (insert t vis))"

text \<open>The successors as a list, and the candidates of a range of history entries.\<close>

definition succs :: "VesselsState \<Rightarrow> VesselsState \<Rightarrow> VesselsState list" where
  "succs volumes s = (case next_states s volumes of Some l \<Rightarrow> l | None \<Rightarrow> [])"

definition cands :: "VesselsState \<Rightarrow> History \<Rightarrow> nat list \<Rightarrow> (VesselsState \<times> nat) list" where
  "cands volumes h js = concat (map (\<lambda>j. map (\<lambda>t. (t, j)) (succs volumes (fst (h ! j)))) js)"

text \<open>What \<^verbatim>\<open>show(target, step); return step;\<close> yields for a history.\<close>

definition outcome :: "int \<Rightarrow> History \<Rightarrow> error + int" where
  "outcome step h = (case show_path step h of Inl e \<Rightarrow> Inl e | Inr rows \<Rightarrow> Inr step)"

text \<open>\<open>anc h i d\<close>: from entry \<open>i\<close>, \<open>d\<close> predecessor links lead to the root.\<close>

inductive anc :: "History \<Rightarrow> nat \<Rightarrow> nat \<Rightarrow> bool" for h where
  anc_root: "i < length h \<Longrightarrow> snd (h ! i) = - 1 \<Longrightarrow> anc h i 0"
| anc_step: "i < length h \<Longrightarrow> snd (h ! i) = int j \<Longrightarrow> anc h j d \<Longrightarrow> anc h i (Suc d)"

text \<open>
  \<open>links_back h\<close>: every predecessor index is -1 or the index of an earlier entry.
\<close>

definition links_back :: "History \<Rightarrow> bool" where
  "links_back h = (\<forall>k<length h. - 1 \<le> snd (h ! k) \<and> snd (h ! k) < int k)"

text \<open>
  What holds of the history and the visited set at every moment of a search
  (\<open>hist_ok\<close>), and at the head of the outer loop when \<open>k\<close> rounds are done and
  the entries from \<open>p\<close> on are the frontier (\<open>bfs_inv\<close>).
\<close>

definition hist_ok :: "VesselsState \<Rightarrow> History \<Rightarrow> Visited \<Rightarrow> bool" where
  "hist_ok volumes h vis =
     (h \<noteq> [] \<and> h ! 0 = (VesselsState 0 0 0, - 1) \<and> vis = insert volumes (fst ` set h) \<and>
      distinct (map fst h) \<and> (\<forall>e \<in> set h. \<exists>n. route volumes n (fst e)))"

definition bfs_inv ::
  "VesselsState \<Rightarrow> water \<Rightarrow> nat \<Rightarrow> nat \<Rightarrow> History \<Rightarrow> Visited \<Rightarrow> bool" where
  "bfs_inv volumes target k p h vis =
     (p \<le> length h \<and> hist_ok volumes h vis \<and>
      fst ` set (take p h) = {s. \<exists>j<k. layer volumes j s} \<and>
      fst ` set (drop p h) = {s. layer volumes k s} \<and>
      (\<forall>e \<in> set h. \<not> contains (fst e) target) \<and>
      (\<forall>i<length h. \<forall>d. layer volumes d (fst (h ! i)) \<longrightarrow> anc h i d))"

text \<open>A search that ends with a solution of \<open>m\<close> steps.\<close>

definition solved_at :: "VesselsState \<Rightarrow> water \<Rightarrow> nat \<Rightarrow> History \<Rightarrow> bool" where
  "solved_at volumes target m h =
     (route volumes m (fst (last h)) \<and> contains (fst (last h)) target \<and>
      (\<forall>n s. route volumes n s \<and> contains s target \<longrightarrow> m \<le> n) \<and>
      (\<exists>rows. show_path (int m) h = Inr rows \<and> length rows = Suc m \<and>
              set rows \<subseteq> fst ` set h))"

section \<open>Facts about the state model\<close>

lemma all_less_3: "(\<forall>i<3::nat. P i) = (P 0 \<and> P 1 \<and> P 2)"
  by (auto simp: numeral_3_eq_3 numeral_2_eq_2 less_Suc_eq)

lemma ex_less_3: "(\<exists>i<3::nat. P i) = (P 0 \<or> P 1 \<or> P 2)"
  by (auto simp: numeral_3_eq_3 numeral_2_eq_2 less_Suc_eq)

lemma less_3_cases: "i < (3::nat) \<Longrightarrow> i = 0 \<or> i = 1 \<or> i = 2"
  by arith

lemma lvl_simps [simp]:
  "lvl (VesselsState a b c) 0 = unat a"
  "lvl (VesselsState a b c) 1 = unat b"
  "lvl (VesselsState a b c) (Suc 0) = unat b"
  "lvl (VesselsState a b c) 2 = unat c"
  by (simp_all add: lvl_def)

lemma in_bounds_simp [simp]:
  "in_bounds (VesselsState x y z) (VesselsState a b c) = (a \<le> x \<and> b \<le> y \<and> c \<le> z)"
  by (auto simp: in_bounds_def all_less_3 word_le_nat_alt)

lemma total_simp [simp]: "total (VesselsState a b c) = unat a + unat b + unat c"
  by (simp add: total_def)

subsection \<open>Word arithmetic of a pour\<close>

lemma pour_all_unat: "(d::water) \<le> v \<Longrightarrow> s \<le> v - d \<Longrightarrow> unat (d + s) = unat d + unat s"
  by unat_arith

lemma pour_part_unat:
  "(d::water) \<le> v \<Longrightarrow> \<not> s \<le> v - d \<Longrightarrow> unat (s - (v - d)) = unat s - (unat v - unat d)"
  by unat_arith

lemma transfer_cases:
  "transfer 0 1 (VesselsState x y z) (VesselsState a b c) =
     Some (if a \<le> y - b then VesselsState 0 (b + a) c else VesselsState (a - (y - b)) y c)"
  "transfer 0 2 (VesselsState x y z) (VesselsState a b c) =
     Some (if a \<le> z - c then VesselsState 0 b (c + a) else VesselsState (a - (z - c)) b z)"
  "transfer 1 0 (VesselsState x y z) (VesselsState a b c) =
     Some (if b \<le> x - a then VesselsState (a + b) 0 c else VesselsState x (b - (x - a)) c)"
  "transfer 1 2 (VesselsState x y z) (VesselsState a b c) =
     Some (if b \<le> z - c then VesselsState a 0 (c + b) else VesselsState a (b - (z - c)) z)"
  "transfer 2 0 (VesselsState x y z) (VesselsState a b c) =
     Some (if c \<le> x - a then VesselsState (a + c) b 0 else VesselsState x b (c - (x - a)))"
  "transfer 2 1 (VesselsState x y z) (VesselsState a b c) =
     Some (if c \<le> y - b then VesselsState a (b + c) 0 else VesselsState a y (c - (y - b)))"
  by (simp_all add: transfer_def)

lemmas transfer_simps = transfer_cases transfer_cases [unfolded One_nat_def]

text \<open>
  What a pour between two distinct vessels of a state within bounds does, in natural
  numbers: no addition or subtraction of the source wraps around.
\<close>

lemma transfer_spec:
  assumes "in_bounds volumes s" "src < 3" "dst < 3" "src \<noteq> dst"
  shows "\<exists>r. transfer src dst volumes s = Some r \<and>
     (lvl s src \<le> lvl volumes dst - lvl s dst \<longrightarrow>
        lvl r src = 0 \<and> lvl r dst = lvl s dst + lvl s src) \<and>
     (\<not> lvl s src \<le> lvl volumes dst - lvl s dst \<longrightarrow>
        lvl r dst = lvl volumes dst \<and> lvl r src = lvl s src - (lvl volumes dst - lvl s dst)) \<and>
     (\<forall>k<3. k \<noteq> src \<longrightarrow> k \<noteq> dst \<longrightarrow> lvl r k = lvl s k)"
proof -
  obtain a b c where s: "s = VesselsState a b c" by (cases s)
  obtain x y z where v: "volumes = VesselsState x y z" by (cases volumes)
  from assms(1) have le: "a \<le> x" "b \<le> y" "c \<le> z" by (simp_all add: s v)
  have free: "unat (x - a) = unat x - unat a" "unat (y - b) = unat y - unat b"
    "unat (z - c) = unat z - unat c"
    using le by (simp_all add: unat_sub)
  note simps = s v transfer_simps all_less_3 word_le_nat_alt free pour_all_unat pour_part_unat
  from assms(2-4) less_3_cases [of src] less_3_cases [of dst]
  consider "src = 0 \<and> dst = 1" | "src = 0 \<and> dst = 2" | "src = 1 \<and> dst = 0"
    | "src = 1 \<and> dst = 2" | "src = 2 \<and> dst = 0" | "src = 2 \<and> dst = 1"
    by auto
  then show ?thesis
  proof cases
    case 1
    then show ?thesis using le by (simp add: simps)
  next
    case 2
    then show ?thesis using le by (simp add: simps)
  next
    case 3
    then show ?thesis using le by (simp add: simps)
  next
    case 4
    then show ?thesis using le by (simp add: simps)
  next
    case 5
    then show ?thesis using le by (simp add: simps)
  next
    case 6
    then show ?thesis using le by (simp add: simps)
  qed
qed

subsection \<open>The successors are exactly the guarded Fills, Drains and Pours\<close>

lemma next_states_code:
  "next_states (VesselsState a b c) (VesselsState x y z) = Some (
     (if a = 0 then [VesselsState x b c] else []) @
     (if a \<noteq> 0 then [VesselsState 0 b c] else []) @
     (if b < y \<and> 0 < a then [the (transfer 0 1 (VesselsState x y z) (VesselsState a b c))] else []) @
     (if c < z \<and> 0 < a then [the (transfer 0 2 (VesselsState x y z) (VesselsState a b c))] else []) @
     (if b = 0 then [VesselsState a y c] else []) @
     (if b \<noteq> 0 then [VesselsState a 0 c] else []) @
     (if a < x \<and> 0 < b then [the (transfer 1 0 (VesselsState x y z) (VesselsState a b c))] else []) @
     (if c < z \<and> 0 < b then [the (transfer 1 2 (VesselsState x y z) (VesselsState a b c))] else []) @
     (if c = 0 then [VesselsState a b z] else []) @
     (if c \<noteq> 0 then [VesselsState a b 0] else []) @
     (if a < x \<and> 0 < c then [the (transfer 2 0 (VesselsState x y z) (VesselsState a b c))] else []) @
     (if b < y \<and> 0 < c then [the (transfer 2 1 (VesselsState x y z) (VesselsState a b c))] else []))"
  by (simp add: next_states_def from_step_def pour_loop_def pour_step_def transfer_simps)

lemma next_states_total: "\<exists>l. next_states s v = Some l"
  by (cases s; cases v) (simp add: next_states_code)

lemma in_set_if_single: "t \<in> set (if P then [x] else []) \<longleftrightarrow> P \<and> t = x"
  by (cases P) auto

lemma zero_neq_word: "(0 \<noteq> (a::water)) = (a \<noteq> 0)"
  by auto

lemma the_Some_eq: "m = Some y \<Longrightarrow> (t = the m) = (m = Some t)"
  by auto

lemma set_next_states:
  assumes "next_states (VesselsState a b c) (VesselsState x y z) = Some l"
  shows "t \<in> set l \<longleftrightarrow>
     (a = 0 \<and> t = VesselsState x b c) \<or> (a \<noteq> 0 \<and> t = VesselsState 0 b c) \<or>
     (b < y \<and> a \<noteq> 0 \<and> transfer 0 1 (VesselsState x y z) (VesselsState a b c) = Some t) \<or>
     (c < z \<and> a \<noteq> 0 \<and> transfer 0 2 (VesselsState x y z) (VesselsState a b c) = Some t) \<or>
     (b = 0 \<and> t = VesselsState a y c) \<or> (b \<noteq> 0 \<and> t = VesselsState a 0 c) \<or>
     (a < x \<and> b \<noteq> 0 \<and> transfer 1 0 (VesselsState x y z) (VesselsState a b c) = Some t) \<or>
     (c < z \<and> b \<noteq> 0 \<and> transfer 1 2 (VesselsState x y z) (VesselsState a b c) = Some t) \<or>
     (c = 0 \<and> t = VesselsState a b z) \<or> (c \<noteq> 0 \<and> t = VesselsState a b 0) \<or>
     (a < x \<and> c \<noteq> 0 \<and> transfer 2 0 (VesselsState x y z) (VesselsState a b c) = Some t) \<or>
     (b < y \<and> c \<noteq> 0 \<and> transfer 2 1 (VesselsState x y z) (VesselsState a b c) = Some t)"
proof -
  from assms have l: "l = the (next_states (VesselsState a b c) (VesselsState x y z))"
    by simp
  show ?thesis
    unfolding l next_states_code option.sel
    by (simp only: set_append Un_iff in_set_if_single word_gt_0
          the_Some_eq [OF transfer_cases(1)] the_Some_eq [OF transfer_cases(2)]
          the_Some_eq [OF transfer_cases(3)] the_Some_eq [OF transfer_cases(4)]
          the_Some_eq [OF transfer_cases(5)] the_Some_eq [OF transfer_cases(6)]
          disj_assoc conj_assoc zero_neq_word)
qed

lemma is_fill_simps:
  "(\<exists>v. is_fill (VesselsState x y z) (VesselsState a b c) v t) =
     ((a = 0 \<and> t = VesselsState x b c) \<or> (b = 0 \<and> t = VesselsState a y c) \<or>
      (c = 0 \<and> t = VesselsState a b z))"
  unfolding is_fill_def fill_of_def ex_less_3
  by (auto simp: unat_eq_0)

lemma is_drain_simps:
  "(\<exists>v. is_drain (VesselsState a b c) v t) =
     ((a \<noteq> 0 \<and> t = VesselsState 0 b c) \<or> (b \<noteq> 0 \<and> t = VesselsState a 0 c) \<or>
      (c \<noteq> 0 \<and> t = VesselsState a b 0))"
  unfolding is_drain_def drain_of_def ex_less_3
  by (auto simp: unat_eq_0)

lemma is_pour_bounded:
  "(\<exists>src dst. is_pour v s src dst t) = (\<exists>src<3. \<exists>dst<3. is_pour v s src dst t)"
  by (auto simp: is_pour_def)

lemma is_pour_conc:
  "is_pour (VesselsState x y z) (VesselsState a b c) 0 0 t = False"
  "is_pour (VesselsState x y z) (VesselsState a b c) 1 1 t = False"
  "is_pour (VesselsState x y z) (VesselsState a b c) 2 2 t = False"
  "is_pour (VesselsState x y z) (VesselsState a b c) 0 1 t =
     (b < y \<and> a \<noteq> 0 \<and> transfer 0 1 (VesselsState x y z) (VesselsState a b c) = Some t)"
  "is_pour (VesselsState x y z) (VesselsState a b c) 0 2 t =
     (c < z \<and> a \<noteq> 0 \<and> transfer 0 2 (VesselsState x y z) (VesselsState a b c) = Some t)"
  "is_pour (VesselsState x y z) (VesselsState a b c) 1 0 t =
     (a < x \<and> b \<noteq> 0 \<and> transfer 1 0 (VesselsState x y z) (VesselsState a b c) = Some t)"
  "is_pour (VesselsState x y z) (VesselsState a b c) 1 2 t =
     (c < z \<and> b \<noteq> 0 \<and> transfer 1 2 (VesselsState x y z) (VesselsState a b c) = Some t)"
  "is_pour (VesselsState x y z) (VesselsState a b c) 2 0 t =
     (a < x \<and> c \<noteq> 0 \<and> transfer 2 0 (VesselsState x y z) (VesselsState a b c) = Some t)"
  "is_pour (VesselsState x y z) (VesselsState a b c) 2 1 t =
     (b < y \<and> c \<noteq> 0 \<and> transfer 2 1 (VesselsState x y z) (VesselsState a b c) = Some t)"
  unfolding is_pour_def
  by (auto simp: unat_gt_0 word_less_nat_alt)

lemma is_pour_simps:
  "(\<exists>src dst. is_pour (VesselsState x y z) (VesselsState a b c) src dst t) =
     ((b < y \<and> a \<noteq> 0 \<and> transfer 0 1 (VesselsState x y z) (VesselsState a b c) = Some t) \<or>
      (c < z \<and> a \<noteq> 0 \<and> transfer 0 2 (VesselsState x y z) (VesselsState a b c) = Some t) \<or>
      (a < x \<and> b \<noteq> 0 \<and> transfer 1 0 (VesselsState x y z) (VesselsState a b c) = Some t) \<or>
      (c < z \<and> b \<noteq> 0 \<and> transfer 1 2 (VesselsState x y z) (VesselsState a b c) = Some t) \<or>
      (a < x \<and> c \<noteq> 0 \<and> transfer 2 0 (VesselsState x y z) (VesselsState a b c) = Some t) \<or>
      (b < y \<and> c \<noteq> 0 \<and> transfer 2 1 (VesselsState x y z) (VesselsState a b c) = Some t))"
  unfolding is_pour_bounded ex_less_3 is_pour_conc
  by (simp only: simp_thms disj_assoc)

lemma disj_regroup:
  "(F1 \<or> D1 \<or> P1 \<or> P2 \<or> F2 \<or> D2 \<or> P3 \<or> P4 \<or> F3 \<or> D3 \<or> P5 \<or> P6) =
   ((F1 \<or> F2 \<or> F3) \<or> (D1 \<or> D2 \<or> D3) \<or> (P1 \<or> P2 \<or> P3 \<or> P4 \<or> P5 \<or> P6))"
  by auto

lemma next_states_iff:
  assumes "next_states s volumes = Some l"
  shows "t \<in> set l \<longleftrightarrow>
     (\<exists>v. is_fill volumes s v t) \<or> (\<exists>v. is_drain s v t) \<or>
     (\<exists>src dst. is_pour volumes s src dst t)"
proof -
  obtain a b c where s: "s = VesselsState a b c" by (cases s)
  obtain x y z where v: "volumes = VesselsState x y z" by (cases volumes)
  show ?thesis
    unfolding s v is_fill_simps is_drain_simps is_pour_simps
      set_next_states [OF assms [unfolded s v]]
    by (rule disj_regroup)
qed

subsection \<open>Levels after each operation\<close>

lemma fill_lvl:
  assumes "is_fill volumes s v t"
  shows "lvl t v = lvl volumes v \<and> (\<forall>k<3. k \<noteq> v \<longrightarrow> lvl t k = lvl s k)"
proof -
  obtain a b c where s: "s = VesselsState a b c" by (cases s)
  obtain x y z where vo: "volumes = VesselsState x y z" by (cases volumes)
  from assms have "v < 3" by (simp add: is_fill_def)
  then have "v = 0 \<or> v = 1 \<or> v = 2" by (rule less_3_cases)
  then show ?thesis using assms
    by (auto simp: is_fill_def fill_of_def s vo all_less_3)
qed

lemma drain_lvl:
  assumes "is_drain s v t"
  shows "lvl t v = 0 \<and> (\<forall>k<3. k \<noteq> v \<longrightarrow> lvl t k = lvl s k)"
proof -
  obtain a b c where s: "s = VesselsState a b c" by (cases s)
  from assms have "v < 3" by (simp add: is_drain_def)
  then have "v = 0 \<or> v = 1 \<or> v = 2" by (rule less_3_cases)
  then show ?thesis using assms
    by (auto simp: is_drain_def drain_of_def s all_less_3)
qed

lemma pour_lvl:
  assumes "in_bounds volumes s" "is_pour volumes s src dst t"
  shows "(lvl s src \<le> lvl volumes dst - lvl s dst \<longrightarrow>
            lvl t src = 0 \<and> lvl t dst = lvl s dst + lvl s src) \<and>
         (\<not> lvl s src \<le> lvl volumes dst - lvl s dst \<longrightarrow>
            lvl t dst = lvl volumes dst \<and> lvl t src = lvl s src - (lvl volumes dst - lvl s dst)) \<and>
         (\<forall>k<3. k \<noteq> src \<longrightarrow> k \<noteq> dst \<longrightarrow> lvl t k = lvl s k)"
proof -
  from assms(2) have c: "src < 3" "dst < 3" "src \<noteq> dst"
    and t: "transfer src dst volumes s = Some t"
    by (simp_all add: is_pour_def)
  from transfer_spec [OF assms(1) c] t show ?thesis by simp
qed

subsection \<open>The bounds are an invariant\<close>

lemma fill_in_bounds: "in_bounds volumes s \<Longrightarrow> is_fill volumes s v t \<Longrightarrow> in_bounds volumes t"
  unfolding in_bounds_def using fill_lvl [of volumes s v t] by (metis order_refl)

lemma drain_in_bounds: "in_bounds volumes s \<Longrightarrow> is_drain s v t \<Longrightarrow> in_bounds volumes t"
  unfolding in_bounds_def using drain_lvl [of s v t] by (metis le0)

lemma pour_in_bounds:
  assumes "in_bounds volumes s" "is_pour volumes s src dst t"
  shows "in_bounds volumes t"
  unfolding in_bounds_def
proof (intro allI impI)
  fix i :: nat assume i: "i < 3"
  note p = pour_lvl [OF assms]
  from assms(2) have c: "src < 3" "dst < 3" by (simp_all add: is_pour_def)
  from assms(1) have b: "lvl s src \<le> lvl volumes src" "lvl s dst \<le> lvl volumes dst"
    "lvl s i \<le> lvl volumes i"
    using c i by (simp_all add: in_bounds_def)
  consider "i = src" | "i = dst" | "i \<noteq> src" "i \<noteq> dst" by blast
  then show "lvl t i \<le> lvl volumes i"
  proof cases
    case 1
    then show ?thesis using p b by (cases "lvl s src \<le> lvl volumes dst - lvl s dst") auto
  next
    case 2
    then show ?thesis using p b by (cases "lvl s src \<le> lvl volumes dst - lvl s dst") auto
  next
    case 3
    then show ?thesis using p b i by simp
  qed
qed

lemma next_states_in_bounds:
  assumes "in_bounds volumes s" "next_states s volumes = Some l" "t \<in> set l"
  shows "in_bounds volumes t"
  using assms fill_in_bounds drain_in_bounds pour_in_bounds
  unfolding next_states_iff [OF assms(2)] by blast

lemma in_bounds_zero: "in_bounds volumes (VesselsState 0 0 0)"
  by (simp add: in_bounds_def all_less_3)

lemma reachable_in_bounds: "reachable volumes s \<Longrightarrow> in_bounds volumes s"
  by (induction rule: reachable.induct) (auto intro: in_bounds_zero next_states_in_bounds)

subsection \<open>Conservation of volume\<close>

lemma total_split:
  assumes "i < 3" "j < 3" "i \<noteq> j"
  shows "\<exists>k<3. k \<noteq> i \<and> k \<noteq> j \<and> (\<forall>s. total s = lvl s i + lvl s j + lvl s k)"
proof -
  from assms less_3_cases [of i] less_3_cases [of j]
  consider "i = 0 \<and> j = 1" | "i = 0 \<and> j = 2" | "i = 1 \<and> j = 0"
    | "i = 1 \<and> j = 2" | "i = 2 \<and> j = 0" | "i = 2 \<and> j = 1"
    by auto
  then show ?thesis
    by cases (simp_all add: total_def ex_less_3)
qed

lemma total_split1:
  assumes "i < 3"
  shows "\<exists>j<3. \<exists>k<3. j \<noteq> i \<and> k \<noteq> i \<and> j \<noteq> k \<and>
           (\<forall>s. total s = lvl s i + lvl s j + lvl s k)"
proof -
  from assms less_3_cases [of i] consider "i = 0" | "i = 1" | "i = 2" by auto
  then show ?thesis
    by cases (simp_all add: total_def ex_less_3)
qed

lemma fill_total:
  assumes "is_fill volumes s v t"
  shows "total t = total s + lvl volumes v"
proof -
  from assms have v: "v < 3" "lvl s v = 0" by (simp_all add: is_fill_def)
  from total_split1 [OF v(1)] obtain j k where
    jk: "j < 3" "k < 3" "j \<noteq> v" "k \<noteq> v" and tot: "\<And>s. total s = lvl s v + lvl s j + lvl s k"
    by blast
  from fill_lvl [OF assms] jk v show ?thesis by (simp add: tot)
qed

lemma drain_total:
  assumes "is_drain s v t"
  shows "total t + lvl s v = total s"
proof -
  from assms have v: "v < 3" by (simp_all add: is_drain_def)
  from total_split1 [OF v(1)] obtain j k where
    jk: "j < 3" "k < 3" "j \<noteq> v" "k \<noteq> v" and tot: "\<And>s. total s = lvl s v + lvl s j + lvl s k"
    by blast
  from drain_lvl [OF assms] jk v show ?thesis by (simp add: tot)
qed

lemma pour_total:
  assumes "in_bounds volumes s" "is_pour volumes s src dst t"
  shows "total t = total s"
proof -
  from assms(2) have c: "src < 3" "dst < 3" "src \<noteq> dst"
    by (simp_all add: is_pour_def)
  from total_split [OF c] obtain k where
    k: "k < 3" "k \<noteq> src" "k \<noteq> dst" and tot: "\<And>s. total s = lvl s src + lvl s dst + lvl s k"
    by blast
  from assms(1) c have b: "lvl s dst \<le> lvl volumes dst" by (simp add: in_bounds_def)
  from pour_lvl [OF assms] k b show ?thesis
    by (cases "lvl s src \<le> lvl volumes dst - lvl s dst") (simp_all add: tot)
qed

section \<open>The visited set grows: termination of the search\<close>

lemma finite_VesselsState: "finite (UNIV :: VesselsState set)"
proof -
  have "(UNIV :: VesselsState set) = (\<lambda>(a, b, c). VesselsState a b c) ` UNIV"
  proof (intro set_eqI iffI)
    fix s :: VesselsState
    assume "s \<in> UNIV"
    obtain a b c where "s = VesselsState a b c" by (cases s)
    then have "s = (\<lambda>(a, b, c). VesselsState a b c) (a, b, c)" by simp
    then show "s \<in> (\<lambda>(a, b, c). VesselsState a b c) ` UNIV" by blast
  qed simp
  then show ?thesis by (metis finite_imageI finite_code)
qed

lemma grows_refl: "grows h vis h vis"
  by (simp add: grows_def)

lemma grows_trans:
  assumes "grows h vis h' vis'" "grows h' vis' h'' vis''"
  shows "grows h vis h'' vis''"
proof -
  from assms(1) obtain n1 where 1: "h' = h @ n1" "vis' = vis \<union> fst ` set n1"
    "fst ` set n1 \<inter> vis = {}" "distinct (map fst n1)"
    unfolding grows_def by blast
  from assms(2) obtain n2 where 2: "h'' = h' @ n2" "vis'' = vis' \<union> fst ` set n2"
    "fst ` set n2 \<inter> vis' = {}" "distinct (map fst n2)"
    unfolding grows_def by blast
  have "h'' = h @ (n1 @ n2)" using 1 2 by simp
  moreover have "vis'' = vis \<union> fst ` set (n1 @ n2)" using 1 2 by auto
  moreover have "fst ` set (n1 @ n2) \<inter> vis = {}" using 1 2 by auto
  moreover have "distinct (map fst (n1 @ n2))" using 1 2 by auto
  ultimately show ?thesis unfolding grows_def by blast
qed

lemma grows_step: "s \<notin> vis \<Longrightarrow> grows h vis (h @ [(s, p)]) (insert s vis)"
  unfolding grows_def by (intro exI [of _ "[(s, p)]"]) auto

lemma visit_new_grows:
  "visit_new target step ptr ss h vis = (r, h', vis') \<Longrightarrow> grows h vis h' vis'"
proof (induction ss arbitrary: h vis)
  case Nil
  then show ?case by (simp add: grows_refl)
next
  case (Cons n ns)
  show ?case
  proof (cases "n \<in> vis")
    case True
    with Cons show ?thesis by simp
  next
    case False
    note g = grows_step [OF False, of h "int ptr"]
    show ?thesis
    proof (cases "contains n target")
      case True
      with False Cons.prems have "h' = h @ [(n, int ptr)]" "vis' = insert n vis"
        by (auto split: sum.splits)
      with g show ?thesis by simp
    next
      case c: False
      with False Cons.prems
      have "visit_new target step ptr ns (h @ [(n, int ptr)]) (insert n vis) = (r, h', vis')"
        by simp
      from Cons.IH [OF this] g show ?thesis by (blast intro: grows_trans)
    qed
  qed
qed

lemma frontier_loop_grows:
  "frontier_loop volumes target step ptr next_ptr h vis = (r, h', vis') \<Longrightarrow> grows h vis h' vis'"
proof (induction volumes target step ptr next_ptr h vis rule: frontier_loop.induct)
  case (1 volumes target step ptr next_ptr h vis)
  show ?case
  proof (cases "ptr < next_ptr \<and> ptr < length h")
    case False
    with "1.prems" have "h' = h" "vis' = vis"
      by (auto simp: frontier_loop.simps [of volumes target step ptr next_ptr h vis] split: if_splits)
    then show ?thesis by (simp add: grows_refl)
  next
    case True
    from next_states_total obtain ss where s: "next_states (fst (h ! ptr)) volumes = Some ss"
      by blast
    obtain r1 h1 vis1 where v: "visit_new target step ptr ss h vis = (r1, h1, vis1)"
      by (cases "visit_new target step ptr ss h vis") auto
    note g1 = visit_new_grows [OF v]
    show ?thesis
    proof (cases r1)
      case None
      with True s v "1.prems"
      have "frontier_loop volumes target step (ptr + 1) next_ptr h1 vis1 = (r, h', vis')"
        by (simp add: frontier_loop.simps [of volumes target step ptr next_ptr h vis])
      from "1.IH" [OF _ _ s v [symmetric] _ _ this] True None
      have "grows h1 vis1 h' vis'" by simp
      with g1 show ?thesis by (blast intro: grows_trans)
    next
      case (Some a)
      with True s v "1.prems" have "h' = h1" "vis' = vis1"
        by (simp_all add: frontier_loop.simps [of volumes target step ptr next_ptr h vis])
      with g1 show ?thesis by simp
    qed
  qed
qed

lemma grows_measure:
  assumes "grows h vis h' vis'"
  shows "(length h' = length h \<and> vis' = vis) \<or> card (- vis') < card (- vis)"
proof -
  from assms obtain new where n: "h' = h @ new" "vis' = vis \<union> fst ` set new"
    "fst ` set new \<inter> vis = {}"
    unfolding grows_def by blast
  show ?thesis
  proof (cases new)
    case Nil
    with n show ?thesis by simp
  next
    case (Cons x xs)
    with n have "fst x \<in> vis'" "fst x \<notin> vis" by auto
    then have "- vis' \<subset> - vis" using n(2) by auto
    then have "card (- vis') < card (- vis)"
      by (intro psubset_card_mono) (auto intro: finite_subset [OF _ finite_VesselsState])
    then show ?thesis by simp
  qed
qed

termination solve_loop
proof (relation "measure (\<lambda>(volumes, target, step, old_ptr, h, vis).
          2 * card (- vis) + (if old_ptr = length h then 0 else 1))", goal_cases)
  case 1
  show ?case by simp
next
  case (2 volumes target step old_ptr h vis x1 x2 h' vis')
  then have "frontier_loop volumes target (step + 1) old_ptr (length h) h vis = (None, h', vis')"
    by simp
  from grows_measure [OF frontier_loop_grows [OF this]] 2(1)
  show ?case by auto
qed

declare solve_loop.simps [simp del]

section \<open>The rounds as scans of candidates\<close>

lemma next_states_succs: "next_states s volumes = Some (succs volumes s)"
  using next_states_total [of s volumes] by (auto simp: succs_def)

lemma visit_new_scan:
  "visit_new target step ptr ss h vis = scan target step (map (\<lambda>t. (t, ptr)) ss) h vis"
  by (induction ss arbitrary: h vis) auto

lemma scan_append:
  "scan target step (xs @ ys) h vis =
     (case scan target step xs h vis of
        (None, h', vis') \<Rightarrow> scan target step ys h' vis'
      | (Some r, h', vis') \<Rightarrow> (Some r, h', vis'))"
proof (induction xs arbitrary: h vis)
  case Nil
  then show ?case by simp
next
  case (Cons x xs)
  obtain t j where x: "x = (t, j)" by (cases x)
  show ?case using Cons by (simp add: x split: sum.splits)
qed

lemma scan_grows: "scan target step cs h vis = (r, h', vis') \<Longrightarrow> grows h vis h' vis'"
proof (induction cs arbitrary: h vis)
  case Nil
  then show ?case by (simp add: grows_refl)
next
  case (Cons x cs)
  obtain t j where x: "x = (t, j)" by (cases x)
  show ?case
  proof (cases "t \<in> vis")
    case True
    with Cons x show ?thesis by simp
  next
    case False
    note g = grows_step [OF False, of h "int j"]
    show ?thesis
    proof (cases "contains t target")
      case True
      with False Cons.prems x have "h' = h @ [(t, int j)]" "vis' = insert t vis"
        by (auto split: sum.splits)
      with g show ?thesis by simp
    next
      case c: False
      with False Cons.prems x
      have "scan target step cs (h @ [(t, int j)]) (insert t vis) = (r, h', vis')"
        by simp
      from Cons.IH [OF this] g show ?thesis by (blast intro: grows_trans)
    qed
  qed
qed

lemma grows_prefix: "grows h vis h' vis' \<Longrightarrow> take (length h) h' = h \<and> length h \<le> length h'"
  by (auto simp: grows_def)

lemma grows_nth: "grows h vis h' vis' \<Longrightarrow> j < length h \<Longrightarrow> h' ! j = h ! j"
  by (auto simp: grows_def nth_append)

lemma cands_grows:
  assumes "grows h vis h' vis'" "\<forall>j \<in> set js. j < length h"
  shows "cands volumes h' js = cands volumes h js"
  unfolding cands_def using assms grows_nth [OF assms(1)]
  by (intro arg_cong [where f = concat] map_cong) auto

lemma cands_upt_step:
  "ptr < n \<Longrightarrow> cands volumes h [ptr..<n] =
     map (\<lambda>t. (t, ptr)) (succs volumes (fst (h ! ptr))) @ cands volumes h [Suc ptr..<n]"
  by (simp add: cands_def upt_conv_Cons)

lemma frontier_loop_scan:
  "next_ptr \<le> length h \<Longrightarrow>
   frontier_loop volumes target step ptr next_ptr h vis =
     scan target step (cands volumes h [ptr..<next_ptr]) h vis"
proof (induction volumes target step ptr next_ptr h vis rule: frontier_loop.induct)
  case (1 volumes target step ptr next_ptr h vis)
  show ?case
  proof (cases "ptr < next_ptr")
    case False
    then show ?thesis
      by (simp add: frontier_loop.simps [of volumes target step ptr next_ptr h vis] cands_def)
  next
    case True
    with "1.prems" have lt: "ptr < length h" by simp
    let ?ss = "succs volumes (fst (h ! ptr))"
    note ns = next_states_succs [of "fst (h ! ptr)" volumes]
    obtain r1 h1 vis1 where v: "visit_new target step ptr ?ss h vis = (r1, h1, vis1)"
      by (cases "visit_new target step ptr ?ss h vis") auto
    then have sc: "scan target step (map (\<lambda>t. (t, ptr)) ?ss) h vis = (r1, h1, vis1)"
      by (simp add: visit_new_scan)
    note g = scan_grows [OF sc]
    have unf: "frontier_loop volumes target step ptr next_ptr h vis =
       (case r1 of None \<Rightarrow> frontier_loop volumes target step (ptr + 1) next_ptr h1 vis1
        | Some r \<Rightarrow> (Some r, h1, vis1))"
      using True lt ns v
      by (simp add: frontier_loop.simps [of volumes target step ptr next_ptr h vis] split: option.splits)
    show ?thesis
    proof (cases r1)
      case None
      have len: "next_ptr \<le> length h1" using grows_prefix [OF g] "1.prems" by simp
      have "frontier_loop volumes target step (ptr + 1) next_ptr h1 vis1 =
          scan target step (cands volumes h1 [ptr + 1..<next_ptr]) h1 vis1"
        using "1.IH" [OF True lt ns v [symmetric] _ _ len] None by simp
      also have "cands volumes h1 [ptr + 1..<next_ptr] = cands volumes h [ptr + 1..<next_ptr]"
        using cands_grows [OF g] "1.prems" by simp
      finally show ?thesis
        using unf None sc True by (simp add: cands_upt_step scan_append)
    next
      case (Some a)
      then show ?thesis using unf sc True by (simp add: cands_upt_step scan_append)
    qed
  qed
qed

lemma scan_Cons_unvisited:
  "t \<notin> vis \<Longrightarrow> scan target step ((t, j) # rest) h vis =
     (if contains t target then (Some (outcome step (h @ [(t, int j)])), h @ [(t, int j)], insert t vis)
      else scan target step rest (h @ [(t, int j)]) (insert t vis))"
  by (simp add: outcome_def split: sum.splits)

lemma scan_Cons_visited:
  "t \<in> vis \<Longrightarrow> scan target step ((t, j) # rest) h vis = scan target step rest h vis"
  by simp

declare scan.simps(2) [simp del]

lemma scan_new_entries:
  "scan target step cs h vis = (r, h', vis') \<Longrightarrow> h' = h @ new \<Longrightarrow>
     set new \<subseteq> (\<lambda>(t, j). (t, int j)) ` set cs"
proof (induction cs arbitrary: h vis new)
  case Nil
  then show ?case by simp
next
  case (Cons x cs)
  obtain t j where x: "x = (t, j)" by (cases x)
  show ?case
  proof (cases "t \<in> vis")
    case True
    with Cons.prems x have "scan target step cs h vis = (r, h', vis')"
      by (simp add: scan_Cons_visited)
    from Cons.IH [OF this Cons.prems(2)] show ?thesis by auto
  next
    case False
    show ?thesis
    proof (cases "contains t target")
      case True
      with False Cons.prems x have "new = [(t, int j)]"
        by (simp add: scan_Cons_unvisited)
      then show ?thesis by (simp add: x)
    next
      case c: False
      with False Cons.prems x
      have sc: "scan target step cs (h @ [(t, int j)]) (insert t vis) = (r, h', vis')"
        by (simp add: scan_Cons_unvisited)
      from grows_prefix [OF scan_grows [OF sc]] Cons.prems(2)
      obtain new1 where n1: "new = (t, int j) # new1"
        by (cases new) (auto simp: take_Suc_conv_app_nth)
      with Cons.prems(2) have "h' = (h @ [(t, int j)]) @ new1" by simp
      from Cons.IH [OF sc this] n1 show ?thesis by (auto simp: x)
    qed
  qed
qed

lemma scan_None:
  "scan target step cs h vis = (None, h', vis') \<Longrightarrow> h' = h @ new \<Longrightarrow>
     fst ` set cs \<subseteq> vis' \<and> (\<forall>e \<in> set new. \<not> contains (fst e) target)"
proof (induction cs arbitrary: h vis new)
  case Nil
  then show ?case by simp
next
  case (Cons x cs)
  obtain t j where x: "x = (t, j)" by (cases x)
  show ?case
  proof (cases "t \<in> vis")
    case True
    with Cons.prems x have sc: "scan target step cs h vis = (None, h', vis')"
      by (simp add: scan_Cons_visited)
    from scan_grows [OF sc] True have "t \<in> vis'" by (auto simp: grows_def)
    with Cons.IH [OF sc Cons.prems(2)] show ?thesis by (simp add: x)
  next
    case False
    with Cons.prems x have c: "\<not> contains t target"
      by (auto simp: scan_Cons_unvisited split: if_splits)
    with False Cons.prems x
    have sc: "scan target step cs (h @ [(t, int j)]) (insert t vis) = (None, h', vis')"
      by (simp add: scan_Cons_unvisited)
    from grows_prefix [OF scan_grows [OF sc]] Cons.prems(2)
    obtain new1 where n1: "new = (t, int j) # new1"
      by (cases new) (auto simp: take_Suc_conv_app_nth)
    with Cons.prems(2) have h': "h' = (h @ [(t, int j)]) @ new1" by simp
    from scan_grows [OF sc] have "t \<in> vis'" by (auto simp: grows_def)
    with Cons.IH [OF sc h'] n1 c show ?thesis by (simp add: x)
  qed
qed

lemma scan_Some:
  "scan target step cs h vis = (Some res, h', vis') \<Longrightarrow> h' = h @ new \<Longrightarrow>
     new \<noteq> [] \<and> contains (fst (last new)) target \<and>
     (\<forall>e \<in> set (butlast new). \<not> contains (fst e) target) \<and> res = outcome step h'"
proof (induction cs arbitrary: h vis new)
  case Nil
  then show ?case by simp
next
  case (Cons x cs)
  obtain t j where x: "x = (t, j)" by (cases x)
  show ?case
  proof (cases "t \<in> vis")
    case True
    with Cons.prems x have sc: "scan target step cs h vis = (Some res, h', vis')"
      by (simp add: scan_Cons_visited)
    from Cons.IH [OF sc Cons.prems(2)] show ?thesis .
  next
    case False
    show ?thesis
    proof (cases "contains t target")
      case True
      with False Cons.prems x have "new = [(t, int j)]" "res = outcome step h'"
        by (auto simp: scan_Cons_unvisited)
      with True show ?thesis by simp
    next
      case c: False
      with False Cons.prems x
      have sc: "scan target step cs (h @ [(t, int j)]) (insert t vis) = (Some res, h', vis')"
        by (simp add: scan_Cons_unvisited)
      from grows_prefix [OF scan_grows [OF sc]] Cons.prems(2)
      obtain new1 where n1: "new = (t, int j) # new1"
        by (cases new) (auto simp: take_Suc_conv_app_nth)
      with Cons.prems(2) have h': "h' = (h @ [(t, int j)]) @ new1" by simp
      from Cons.IH [OF sc h'] n1 c show ?thesis by auto
    qed
  qed
qed

section \<open>Routes and layers\<close>

lemma route_0_iff: "route volumes 0 s \<longleftrightarrow> s = VesselsState 0 0 0"
  by (auto elim: route.cases intro: route_start)

lemma route_Suc_iff:
  "route volumes (Suc n) t \<longleftrightarrow>
     t \<noteq> volumes \<and> (\<exists>s. route volumes n s \<and> t \<in> set (succs volumes s))"
proof
  assume "route volumes (Suc n) t"
  then show "t \<noteq> volumes \<and> (\<exists>s. route volumes n s \<and> t \<in> set (succs volumes s))"
    by (cases rule: route.cases) (auto simp: succs_def)
next
  assume "t \<noteq> volumes \<and> (\<exists>s. route volumes n s \<and> t \<in> set (succs volumes s))"
  then show "route volumes (Suc n) t"
    using next_states_succs route_step by blast
qed

lemma layer_0_iff: "layer volumes 0 s \<longleftrightarrow> s = VesselsState 0 0 0"
  by (simp add: layer_def route_0_iff)

lemma route_layer: "route volumes n s \<Longrightarrow> \<exists>j\<le>n. layer volumes j s"
proof (induction n rule: less_induct)
  case (less n)
  show ?case
  proof (cases "\<exists>j<n. route volumes j s")
    case True
    then obtain j where "j < n" "route volumes j s" by blast
    with less.IH [of j] show ?thesis by (meson le_trans less_imp_le)
  next
    case False
    with less.prems have "layer volumes n s" by (simp add: layer_def)
    then show ?thesis by blast
  qed
qed

lemma layer_route: "layer volumes k s \<Longrightarrow> route volumes k s"
  by (simp add: layer_def)

lemma layer_unique: "layer volumes j s \<Longrightarrow> layer volumes k s \<Longrightarrow> j = k"
  unfolding layer_def by (meson linorder_neqE_nat)

lemma layer_Suc_iff:
  "layer volumes (Suc k) t \<longleftrightarrow>
     t \<noteq> volumes \<and> (\<exists>s. layer volumes k s \<and> t \<in> set (succs volumes s)) \<and>
     (\<forall>j\<le>k. \<not> layer volumes j t)"
proof
  assume l: "layer volumes (Suc k) t"
  then have r: "route volumes (Suc k) t" and m: "\<forall>j<Suc k. \<not> route volumes j t"
    by (simp_all add: layer_def)
  from r obtain s where s: "t \<noteq> volumes" "route volumes k s" "t \<in> set (succs volumes s)"
    by (auto simp: route_Suc_iff)
  have "\<not> route volumes j s" if "j < k" for j
  proof
    assume "route volumes j s"
    with s have "route volumes (Suc j) t" by (auto simp: route_Suc_iff)
    with m that show False by simp
  qed
  with s have "layer volumes k s" by (simp add: layer_def)
  moreover have "\<forall>j\<le>k. \<not> layer volumes j t" using m by (auto simp: layer_def)
  ultimately show "t \<noteq> volumes \<and> (\<exists>s. layer volumes k s \<and> t \<in> set (succs volumes s)) \<and>
     (\<forall>j\<le>k. \<not> layer volumes j t)"
    using s by blast
next
  assume a: "t \<noteq> volumes \<and> (\<exists>s. layer volumes k s \<and> t \<in> set (succs volumes s)) \<and>
     (\<forall>j\<le>k. \<not> layer volumes j t)"
  then have r: "route volumes (Suc k) t" by (auto simp: route_Suc_iff layer_def)
  have "\<not> route volumes j t" if "j < Suc k" for j
  proof
    assume "route volumes j t"
    from route_layer [OF this] obtain i where "i \<le> j" "layer volumes i t" by blast
    with a that show False by auto
  qed
  with r show "layer volumes (Suc k) t" by (simp add: layer_def)
qed

lemma layer_empty_up:
  assumes "\<forall>s. \<not> layer volumes k s" "k \<le> n"
  shows "\<not> layer volumes n s"
  using assms(2)
proof (induction n arbitrary: s)
  case 0
  with assms(1) show ?case by simp
next
  case (Suc n)
  show ?case
  proof (cases "k = Suc n")
    case True
    with assms(1) show ?thesis by simp
  next
    case False
    with Suc.prems have "k \<le> n" by simp
    with Suc.IH show ?thesis by (auto simp: layer_Suc_iff)
  qed
qed

section \<open>Predecessor chains and the printed path\<close>

lemma anc_append: "anc h i d \<Longrightarrow> anc (h @ x) i d"
  by (induction rule: anc.induct) (auto intro: anc.intros simp: nth_append)

lemma walk_back_anc:
  "anc h i d \<Longrightarrow> \<exists>idxs. walk_back h (Suc d) (int i) acc = Inr (idxs @ acc) \<and>
      length idxs = Suc d \<and> (\<forall>x \<in> set idxs. 0 \<le> x \<and> nat x < length h) \<and> last idxs = int i
      \<and> snd (h ! nat (hd idxs)) = - 1"
proof (induction arbitrary: acc rule: anc.induct)
  case (anc_root i)
  then show ?case by (intro exI [of _ "[int i]"]) simp
next
  case (anc_step i j d)
  from anc_step.IH [of "int i # acc"] obtain idxs where
    w: "walk_back h (Suc d) (int j) (int i # acc) = Inr (idxs @ int i # acc)"
    and l: "length idxs = Suc d" and v: "\<forall>x \<in> set idxs. 0 \<le> x \<and> nat x < length h"
    and hd: "snd (h ! nat (hd idxs)) = - 1"
    by blast
  from l have ne: "idxs \<noteq> []" by auto
  have 1: "walk_back h (Suc (Suc d)) (int i) acc = Inr ((idxs @ [int i]) @ acc)"
    using anc_step.hyps w by simp
  have 2: "length (idxs @ [int i]) = Suc (Suc d)" using l by simp
  have 3: "\<forall>x \<in> set (idxs @ [int i]). 0 \<le> x \<and> nat x < length h"
    using v anc_step.hyps by simp
  have 4: "last (idxs @ [int i]) = int i" by simp
  have 5: "snd (h ! nat (hd (idxs @ [int i]))) = - 1" using hd ne by simp
  from 1 2 3 4 5 show ?case by blast
qed

lemma path_rows_valid:
  "\<forall>x \<in> set idxs. 0 \<le> x \<and> nat x < length h \<Longrightarrow>
     path_rows h idxs = Inr (map (\<lambda>x. fst (h ! nat x)) idxs)"
  by (induction idxs) auto

lemma show_path_ok:
  assumes "anc h (length h - 1) d" "0 < d"
  shows "\<exists>rows. show_path (int d) h = Inr rows \<and> length rows = Suc d \<and> set rows \<subseteq> fst ` set h"
proof -
  from assms(1) have ne: "h \<noteq> []" by (cases rule: anc.cases) auto
  from walk_back_anc [OF assms(1), of "[]"] obtain idxs where
    w: "walk_back h (Suc d) (int (length h - 1)) [] = Inr idxs"
    and l: "length idxs = Suc d" and v: "\<forall>x \<in> set idxs. 0 \<le> x \<and> nat x < length h"
    by auto
  have i: "int (length h) - 1 = int (length h - 1)" using ne by (cases h) auto
  have "show_path (int d) h = Inr (map (\<lambda>x. fst (h ! nat x)) idxs)"
    using assms(2) ne w path_rows_valid [OF v] by (simp add: show_path_def i)
  moreover have "set (map (\<lambda>x. fst (h ! nat x)) idxs) \<subseteq> fst ` set h"
    using v by auto
  ultimately show ?thesis using l by auto
qed

section \<open>The invariant of the rounds\<close>

lemma bfs_inv_states:
  assumes "bfs_inv volumes target k p h vis"
  shows "fst ` set h = {s. \<exists>j\<le>k. layer volumes j s}"
proof -
  have "set h = set (take p h) \<union> set (drop p h)"
    by (metis append_take_drop_id set_append)
  then have "fst ` set h = fst ` set (take p h) \<union> fst ` set (drop p h)" by auto
  also have "\<dots> = {s. \<exists>j<k. layer volumes j s} \<union> {s. layer volumes k s}"
    using assms by (simp add: bfs_inv_def)
  also have "\<dots> = {s. \<exists>j\<le>k. layer volumes j s}" by (auto simp: le_less)
  finally show ?thesis .
qed

lemma in_cands:
  "(t, j) \<in> set (cands volumes h js) \<longleftrightarrow> j \<in> set js \<and> t \<in> set (succs volumes (fst (h ! j)))"
  by (auto simp: cands_def)

lemma bfs_inv_init:
  assumes "target \<noteq> 0"
  shows "bfs_inv volumes target 0 0 [(VesselsState 0 0 0, - 1)]
           (insert volumes (insert (VesselsState 0 0 0) {}))"
proof -
  have "anc [(VesselsState 0 0 0, - 1)] 0 0" by (rule anc_root) simp_all
  moreover have "d = 0" if "layer volumes d (VesselsState 0 0 0)" for d
    using that layer_unique [of volumes d "VesselsState 0 0 0" 0] by (simp add: layer_0_iff)
  ultimately show ?thesis using assms
    by (auto simp: bfs_inv_def hist_ok_def layer_0_iff intro: route_start)
qed

text \<open>One round of the search, seen as a scan of the frontier's candidates.\<close>

lemma round_new_entries:
  assumes inv: "bfs_inv volumes target k p h vis"
    and sc: "scan target step (cands volumes h [p..<length h]) h vis = (r, h @ new, vis')"
    and e: "e \<in> set new"
  shows "layer volumes (Suc k) (fst e) \<and>
         (\<exists>j<length h. snd e = int j \<and> layer volumes k (fst (h ! j)))"
proof -
  from scan_grows [OF sc] have dis: "fst ` set new \<inter> vis = {}"
    by (auto simp: grows_def)
  from scan_new_entries [OF sc refl] e obtain t j where
    tj: "e = (t, int j)" "(t, j) \<in> set (cands volumes h [p..<length h])"
    by auto
  then have j: "p \<le> j" "j < length h" and t: "t \<in> set (succs volumes (fst (h ! j)))"
    by (auto simp: in_cands)
  from j have "drop p h ! (j - p) = h ! j" "j - p < length (drop p h)" by simp_all
  then have "h ! j \<in> set (drop p h)" by (metis nth_mem)
  then have "fst (h ! j) \<in> fst ` set (drop p h)" by blast
  with inv have lj: "layer volumes k (fst (h ! j))" by (simp add: bfs_inv_def)
  from e tj dis have nv: "t \<notin> vis" by force
  with inv have "t \<noteq> volumes" "t \<notin> fst ` set h" by (auto simp: bfs_inv_def hist_ok_def)
  with bfs_inv_states [OF inv] have "t \<noteq> volumes" "\<forall>i\<le>k. \<not> layer volumes i t" by auto
  with lj t have "layer volumes (Suc k) t" by (auto simp: layer_Suc_iff)
  with tj j lj show ?thesis by auto
qed

lemma round_hist_ok:
  assumes inv: "bfs_inv volumes target k p h vis"
    and sc: "scan target step (cands volumes h [p..<length h]) h vis = (r, h', vis')"
  shows "hist_ok volumes h' vis'"
proof -
  from scan_grows [OF sc] obtain new where
    g: "h' = h @ new" "vis' = vis \<union> fst ` set new" "fst ` set new \<inter> vis = {}"
       "distinct (map fst new)"
    by (auto simp: grows_def)
  from inv have ok: "hist_ok volumes h vis" by (simp add: bfs_inv_def)
  note n = round_new_entries [OF inv sc [unfolded g(1)]]
  have 1: "h' \<noteq> []" "h' ! 0 = (VesselsState 0 0 0, - 1)"
    using ok g(1) by (auto simp: hist_ok_def nth_append)
  have 2: "vis' = insert volumes (fst ` set h')"
    using ok g by (auto simp: hist_ok_def)
  have 3: "distinct (map fst h')"
    using ok g by (auto simp: hist_ok_def)
  have 4: "\<forall>e \<in> set h'. \<exists>n. route volumes n (fst e)"
    using ok g(1) n by (auto simp: hist_ok_def dest: layer_route)
  from 1 2 3 4 show ?thesis by (simp add: hist_ok_def)
qed

lemma round_None:
  assumes inv: "bfs_inv volumes target k p h vis"
    and sc: "scan target step (cands volumes h [p..<length h]) h vis = (None, h', vis')"
  shows "bfs_inv volumes target (Suc k) (length h) h' vis'"
proof -
  from scan_grows [OF sc] obtain new where
    g: "h' = h @ new" "vis' = vis \<union> fst ` set new" "fst ` set new \<inter> vis = {}"
    by (auto simp: grows_def)
  note sc' = sc [unfolded g(1)]
  note n = round_new_entries [OF inv sc']
  note st = bfs_inv_states [OF inv]
  from inv have ok: "hist_ok volumes h vis" by (simp add: bfs_inv_def)
  then have vis: "vis = insert volumes (fst ` set h)" by (simp add: hist_ok_def)
  from scan_None [OF sc' refl] have cov: "fst ` set (cands volumes h [p..<length h]) \<subseteq> vis'"
    and nc: "\<forall>e \<in> set new. \<not> contains (fst e) target"
    by simp_all
  have 1: "length h \<le> length h'" using g(1) by simp
  have 2: "fst ` set (take (length h) h') = {s. \<exists>j<Suc k. layer volumes j s}"
    using st g(1) by (auto simp: less_Suc_eq_le)
  have 3: "fst ` set (drop (length h) h') = {s. layer volumes (Suc k) s}"
  proof (intro set_eqI iffI)
    fix t assume "t \<in> fst ` set (drop (length h) h')"
    then show "t \<in> {s. layer volumes (Suc k) s}" using n g(1) by auto
  next
    fix t assume "t \<in> {s. layer volumes (Suc k) s}"
    then have l: "layer volumes (Suc k) t" by simp
    then obtain s where s: "t \<noteq> volumes" "layer volumes k s" "t \<in> set (succs volumes s)"
      "\<forall>j\<le>k. \<not> layer volumes j t"
      by (auto simp: layer_Suc_iff)
    from s(2) inv have "s \<in> fst ` set (drop p h)" by (simp add: bfs_inv_def)
    then obtain i where i: "i < length h - p" "s = fst (h ! (p + i))"
      by (force simp: in_set_conv_nth)
    define j where "j = p + i"
    with i have j: "p \<le> j" "j < length h" "s = fst (h ! j)" by simp_all
    with s(3) have "(t, j) \<in> set (cands volumes h [p..<length h])" by (simp add: in_cands)
    then have "t \<in> fst ` set (cands volumes h [p..<length h])" by force
    with cov have "t \<in> vis'" by blast
    moreover have "t \<notin> vis" using s(1,4) st vis by auto
    ultimately show "t \<in> fst ` set (drop (length h) h')" using g by auto
  qed
  have 4: "\<forall>e \<in> set h'. \<not> contains (fst e) target"
    using inv nc g(1) by (auto simp: bfs_inv_def)
  have 5: "anc h' i d" if i: "i < length h'" and l: "layer volumes d (fst (h' ! i))" for i d
  proof (cases "i < length h")
    case True
    with l g(1) have "layer volumes d (fst (h ! i))" by (simp add: nth_append)
    with inv True have "anc h i d" by (simp add: bfs_inv_def)
    then show ?thesis unfolding g(1) by (rule anc_append)
  next
    case False
    with i g(1) have e: "h' ! i \<in> set new" by (auto simp: nth_append)
    from n [OF e] obtain j where j: "layer volumes (Suc k) (fst (h' ! i))" "j < length h"
      "snd (h' ! i) = int j" "layer volumes k (fst (h ! j))"
      by blast
    from layer_unique [OF l j(1)] have d: "d = Suc k" .
    from inv j have "anc h j k" by (simp add: bfs_inv_def)
    then have "anc h' j k" unfolding g(1) by (rule anc_append)
    with i j(3) show ?thesis unfolding d by (intro anc_step)
  qed
  from 1 2 3 4 5 round_hist_ok [OF inv sc] show ?thesis by (simp add: bfs_inv_def)
qed

section \<open>The two ways a search ends\<close>

lemma bfs_inv_no_target:
  assumes "bfs_inv volumes target k p h vis" "s \<in> fst ` set h"
  shows "\<not> contains s target"
proof -
  from assms(1) have "\<forall>e \<in> set h. \<not> contains (fst e) target" by (simp add: bfs_inv_def)
  with assms(2) show ?thesis by auto
qed

lemma round_Some:
  assumes inv: "bfs_inv volumes target k p h vis"
    and sc: "scan target (int (Suc k)) (cands volumes h [p..<length h]) h vis = (Some res, h', vis')"
  shows "res = Inr (int (Suc k)) \<and> solved_at volumes target (Suc k) h'"
proof -
  from scan_grows [OF sc] obtain new where g: "h' = h @ new"
    by (auto simp: grows_def)
  note sc' = sc [unfolded g]
  from scan_Some [OF sc' refl] have ne: "new \<noteq> []" and c: "contains (fst (last new)) target"
    and res: "res = outcome (int (Suc k)) h'"
    by (simp_all add: g)
  from ne have lin: "last new \<in> set new" by simp
  from ne g have last: "last h' = last new" by simp
  from round_new_entries [OF inv sc' lin] obtain j where
    l: "layer volumes (Suc k) (fst (last new))" and j: "j < length h" "snd (last new) = int j"
      "layer volumes k (fst (h ! j))"
    by blast
  from inv j have "anc h j k" by (simp add: bfs_inv_def)
  then have a: "anc h' j k" unfolding g by (rule anc_append)
  have h'ne: "h' \<noteq> []" using ne g by simp
  then have idx: "length h' - 1 < length h'" "h' ! (length h' - 1) = last h'"
    by (simp_all add: last_conv_nth)
  from idx j(2) a last have "anc h' (length h' - 1) (Suc k)"
    by (intro anc_step [of _ _ j]) simp_all
  from show_path_ok [OF this] obtain rows where
    rows: "show_path (int (Suc k)) h' = Inr rows" "length rows = Suc (Suc k)"
      "set rows \<subseteq> fst ` set h'"
    by auto
  with res have 1: "res = Inr (int (Suc k))" by (simp add: outcome_def)
  have 2: "Suc k \<le> n" if "route volumes n s" "contains s target" for n s
  proof (rule ccontr)
    assume "\<not> Suc k \<le> n"
    then have "n \<le> k" by simp
    with route_layer [OF that(1)] obtain i where "i \<le> k" "layer volumes i s"
      by (meson le_trans)
    with bfs_inv_states [OF inv] have "s \<in> fst ` set h" by auto
    with bfs_inv_no_target [OF inv] that(2) show False by blast
  qed
  from l have 3: "route volumes (Suc k) (fst (last h'))" by (simp add: last layer_route)
  from 1 2 3 c rows last show ?thesis
    unfolding solved_at_def by auto
qed

lemma bfs_exhausted:
  assumes inv: "bfs_inv volumes target k (length h) h vis"
  shows "\<forall>n s. route volumes n s \<longrightarrow> \<not> contains s target"
proof (intro allI impI)
  fix n s assume r: "route volumes n s"
  from inv have "{s. layer volumes k s} = {}" by (simp add: bfs_inv_def)
  then have e: "\<forall>s. \<not> layer volumes k s" by blast
  from route_layer [OF r] obtain j where j: "layer volumes j s" by blast
  have "j < k" using layer_empty_up [OF e, of j s] j by (meson not_le)
  with j bfs_inv_states [OF inv] have "s \<in> fst ` set h" by (auto intro: less_imp_le)
  with bfs_inv_no_target [OF inv] show "\<not> contains s target" by blast
qed

lemma solve_loop_exit:
  "solve_loop volumes target step (length h) h vis = (Inr (- 1), h, vis)"
  by (subst solve_loop.simps) simp

lemma solve_loop_round:
  "old_ptr \<noteq> length h \<Longrightarrow>
   solve_loop volumes target step old_ptr h vis =
     (case frontier_loop volumes target (step + 1) old_ptr (length h) h vis of
        (None, h', vis') \<Rightarrow> solve_loop volumes target (step + 1) (length h) h' vis'
      | (Some r, h', vis') \<Rightarrow> (r, h', vis'))"
  by (subst solve_loop.simps) simp

lemma solve_loop_correct:
  assumes "bfs_inv volumes target k p h vis"
    and "step = int k"
    and "solve_loop volumes target step p h vis = (res, h', vis')"
  shows "hist_ok volumes h' vis' \<and>
     ((res = Inr (- 1) \<and> (\<forall>n s. route volumes n s \<longrightarrow> \<not> contains s target)) \<or>
      (\<exists>m>0. res = Inr (int m) \<and> solved_at volumes target m h'))"
  using assms
proof (induction volumes target step p h vis arbitrary: k rule: solve_loop.induct)
  case (1 volumes target step old_ptr h vis)
  note inv = "1.prems"(1)
  note step = "1.prems"(2)
  note run = "1.prems"(3)
  show ?case
  proof (cases "old_ptr = length h")
    case True
    with run have "res = Inr (- 1)" "h' = h" "vis' = vis"
      by (simp_all add: solve_loop_exit)
    moreover from inv True have "hist_ok volumes h vis" by (simp add: bfs_inv_def)
    moreover note bfs_exhausted [OF inv [unfolded True]]
    ultimately show ?thesis by blast
  next
    case False
    obtain r1 h1 vis1 where
      fl: "frontier_loop volumes target (step + 1) old_ptr (length h) h vis = (r1, h1, vis1)"
      by (cases "frontier_loop volumes target (step + 1) old_ptr (length h) h vis") auto
    have s1: "step + 1 = int (Suc k)" using step by simp
    from fl have sc: "scan target (int (Suc k)) (cands volumes h [old_ptr..<length h]) h vis =
        (r1, h1, vis1)"
      by (simp add: frontier_loop_scan s1)
    show ?thesis
    proof (cases r1)
      case None
      from round_None [OF inv sc [unfolded None]]
      have inv1: "bfs_inv volumes target (Suc k) (length h) h1 vis1" .
      from run False fl None
      have run1: "solve_loop volumes target (step + 1) (length h) h1 vis1 = (res, h', vis')"
        by (simp add: solve_loop_round)
      from "1.IH" [OF False fl [symmetric] _ _ inv1 s1 run1] None
      show ?thesis by simp
    next
      case (Some a)
      with run False fl have eq: "res = a" "h' = h1" "vis' = vis1"
        by (simp_all add: solve_loop_round)
      from round_Some [OF inv sc [unfolded Some]] round_hist_ok [OF inv sc]
      show ?thesis unfolding eq by blast
    qed
  qed
qed

section \<open>The whole call\<close>

lemma solve_water_nonzero:
  assumes "target \<noteq> 0"
  shows "solve_water target sv =
     (case solve_loop (m_volumes sv) target 0 0 [(VesselsState 0 0 0, - 1)]
             (insert (m_volumes sv) (insert (VesselsState 0 0 0) {})) of
        (r, h', vis') \<Rightarrow> (r, sv\<lparr>m_history := h', m_visited := vis'\<rparr>))"
  using assms by (simp add: solve_water_def init_def INVALID_IDX_def Let_def)

lemma solve_water_correct:
  assumes "target \<noteq> 0" "solve_water target sv = (res, sv')"
  shows "m_volumes sv' = m_volumes sv \<and>
     hist_ok (m_volumes sv) (m_history sv') (m_visited sv') \<and>
     ((res = Inr (- 1) \<and> (\<forall>n s. route (m_volumes sv) n s \<longrightarrow> \<not> contains s target)) \<or>
      (\<exists>m>0. res = Inr (int m) \<and> solved_at (m_volumes sv) target m (m_history sv')))"
proof -
  let ?V = "m_volumes sv"
  obtain r h' vis' where
    run: "solve_loop ?V target 0 0 [(VesselsState 0 0 0, - 1)]
             (insert ?V (insert (VesselsState 0 0 0) {})) = (r, h', vis')"
    by (cases "solve_loop ?V target 0 0 [(VesselsState 0 0 0, - 1)]
             (insert ?V (insert (VesselsState 0 0 0) {}))") auto
  with assms have eq: "res = r" "sv' = sv\<lparr>m_history := h', m_visited := vis'\<rparr>"
    by (simp_all add: solve_water_nonzero)
  from solve_loop_correct [OF bfs_inv_init [OF assms(1)] _ run]
  show ?thesis by (simp add: eq)
qed

section \<open>The all-full state stays out of the history\<close>

lemma route_reachable: "route volumes n s \<Longrightarrow> reachable volumes s"
  by (induction rule: route.induct) (auto intro: reachable.intros)

lemma route_in_bounds: "route volumes n s \<Longrightarrow> in_bounds volumes s"
  by (blast intro: route_reachable reachable_in_bounds)

lemma in_bounds_zero_caps: "in_bounds (VesselsState 0 0 0) s \<Longrightarrow> s = VesselsState 0 0 0"
  by (cases s) simp

lemma route_Suc_not_zero_caps:
  assumes "route volumes (Suc n) s"
  shows "volumes \<noteq> VesselsState 0 0 0"
proof
  assume z: "volumes = VesselsState 0 0 0"
  from assms have "s \<noteq> volumes" by (simp add: route_Suc_iff)
  moreover from route_in_bounds [OF assms] have "s = VesselsState 0 0 0"
    unfolding z by (rule in_bounds_zero_caps)
  ultimately show False using z by simp
qed

lemma hist_ok_not_full:
  assumes ok: "hist_ok volumes h vis" and i: "0 < i" "i < length h"
  shows "fst (h ! i) \<noteq> volumes"
proof -
  from ok have d: "distinct (map fst h)" and z: "fst (h ! 0) = VesselsState 0 0 0"
    and r: "\<exists>n. route volumes n (fst (h ! i))"
    using i by (auto simp: hist_ok_def)
  from d i have "map fst h ! i \<noteq> map fst h ! 0"
    by (metis distinct_conv_nth length_map less_trans not_less_iff_gr_or_eq)
  moreover from i have "0 < length h" by (cases h) auto
  then have "map fst h ! 0 = fst (h ! 0)" by (rule nth_map)
  moreover from i have "map fst h ! i = fst (h ! i)" by simp
  ultimately have nz: "fst (h ! i) \<noteq> VesselsState 0 0 0" using z by simp
  from r obtain n where n: "route volumes n (fst (h ! i))" by blast
  with nz obtain m where "n = Suc m" by (cases n) (auto simp: route_0_iff)
  with n show ?thesis by (simp add: route_Suc_iff)
qed

lemma hist_ok_rows_not_full:
  assumes ok: "hist_ok volumes h vis" and m: "solved_at volumes target (Suc m) h"
    and rows: "set rows \<subseteq> fst ` set h"
  shows "volumes \<notin> set rows"
proof
  assume "volumes \<in> set rows"
  with rows have "volumes \<in> fst ` set h" by blast
  then obtain e where "e \<in> set h" "fst e = volumes" by auto
  then obtain i where i: "i < length h" "fst (h ! i) = volumes"
    by (metis in_set_conv_nth)
  from m have "route volumes (Suc m) (fst (last h))" by (simp add: solved_at_def)
  then have nz: "volumes \<noteq> VesselsState 0 0 0" by (rule route_Suc_not_zero_caps)
  show False
  proof (cases "i = 0")
    case True
    with ok i nz show False by (simp add: hist_ok_def)
  next
    case False
    with hist_ok_not_full [OF ok _ i(1)] i(2) show False by simp
  qed
qed

section \<open>Size of the state space\<close>

lemma in_bounds_image:
  "{s. in_bounds (VesselsState x y z) s} \<subseteq>
     (\<lambda>(a, b, c). VesselsState (of_nat a) (of_nat b) (of_nat c)) `
       ({..unat x} \<times> {..unat y} \<times> {..unat z})"
proof
  fix s assume "s \<in> {s. in_bounds (VesselsState x y z) s}"
  then have b: "in_bounds (VesselsState x y z) s" by simp
  obtain a b c where s: "s = VesselsState a b c" by (cases s)
  from b have "unat a \<le> unat x" "unat b \<le> unat y" "unat c \<le> unat z"
    by (simp_all add: s word_le_nat_alt)
  then have "(unat a, unat b, unat c) \<in> {..unat x} \<times> {..unat y} \<times> {..unat z}" by simp
  moreover have "s = (\<lambda>(a, b, c). VesselsState (of_nat a) (of_nat b) (of_nat c))
       (unat a, unat b, unat c)"
    by (simp add: s)
  ultimately show "s \<in> (\<lambda>(a, b, c). VesselsState (of_nat a) (of_nat b) (of_nat c)) `
       ({..unat x} \<times> {..unat y} \<times> {..unat z})"
    by (rule image_eqI [rotated])
qed

lemma card_in_bounds:
  "card {s. in_bounds volumes s} \<le> (lvl volumes 0 + 1) * (lvl volumes 1 + 1) * (lvl volumes 2 + 1)"
proof -
  obtain x y z where v: "volumes = VesselsState x y z" by (cases volumes)
  let ?D = "{..unat x} \<times> {..unat y} \<times> {..unat z}"
  have "card {s. in_bounds (VesselsState x y z) s} \<le>
      card ((\<lambda>(a, b, c). VesselsState (of_nat a) (of_nat b) (of_nat c)) ` ?D)"
    by (intro card_mono in_bounds_image) simp
  also have "\<dots> \<le> card ?D" by (intro card_image_le) simp
  also have "\<dots> = (unat x + 1) * (unat y + 1) * (unat z + 1)"
    by (simp add: card_cartesian_product algebra_simps)
  finally show ?thesis by (simp add: v)
qed

lemma hist_ok_length:
  assumes "hist_ok volumes h vis"
  shows "length h \<le> (lvl volumes 0 + 1) * (lvl volumes 1 + 1) * (lvl volumes 2 + 1)"
proof -
  from assms have d: "distinct (map fst h)" and r: "\<forall>e \<in> set h. in_bounds volumes (fst e)"
    by (auto simp: hist_ok_def intro: route_in_bounds)
  from d have "length h = card (fst ` set h)"
    by (metis distinct_card length_map set_map)
  also have "\<dots> \<le> card {s. in_bounds volumes s}"
    using r by (intro card_mono) (auto intro: finite_subset [OF _ finite_VesselsState])
  also note card_in_bounds
  finally show ?thesis .
qed

section \<open>Sequences of operations and routes\<close>










lemma contains_lvl: "contains s target \<longleftrightarrow> (\<exists>i<3. lvl s i = unat target)"
  by (cases s) (auto simp: ex_less_3 word_unat_eq_iff)



section \<open>The greatest common divisor divides every reachable level\<close>

lemma dvd_levels_update:
  assumes "\<forall>k<3. k \<noteq> a \<longrightarrow> k \<noteq> b \<longrightarrow> lvl t k = lvl s k"
    and "g dvd lvl t a" "g dvd lvl t b" "\<forall>i<3. g dvd lvl s i"
  shows "\<forall>i<3. g dvd lvl t i"
proof (intro allI impI)
  fix i :: nat assume "i < 3"
  with assms show "g dvd lvl t i" by (cases "i = a"; cases "i = b") auto
qed

lemma reachable_dvd:
  assumes g: "\<forall>i<3. g dvd lvl volumes i" and r: "reachable volumes s"
  shows "\<forall>i<3. g dvd lvl s i"
  using r
proof (induction rule: reachable.induct)
  case start
  show ?case by (simp add: all_less_3)
next
  case (step s l t)
  note b = reachable_in_bounds [OF step.hyps(1)]
  from step.hyps(2,3) consider v where "is_fill volumes s v t" | v where "is_drain s v t"
    | src dst where "is_pour volumes s src dst t"
    unfolding next_states_iff [OF step.hyps(2)] by blast
  then show ?case
  proof cases
    case 1
    then have v: "v < 3" by (simp add: is_fill_def)
    from fill_lvl [OF 1] g v step.IH show ?thesis
      by (intro dvd_levels_update [of v v t s]) auto
  next
    case 2
    from drain_lvl [OF 2] step.IH show ?thesis
      by (intro dvd_levels_update [of v v t s]) auto
  next
    case 3
    then have c: "src < 3" "dst < 3" by (simp_all add: is_pour_def)
    note p = pour_lvl [OF b 3]
    from c g step.IH have d: "g dvd lvl s src" "g dvd lvl s dst" "g dvd lvl volumes dst" by auto
    have "g dvd lvl t src \<and> g dvd lvl t dst"
    proof (cases "lvl s src \<le> lvl volumes dst - lvl s dst")
      case True
      with p d show ?thesis by simp
    next
      case False
      with p have "lvl t dst = lvl volumes dst"
        "lvl t src = lvl s src - (lvl volumes dst - lvl s dst)" by simp_all
      with d show ?thesis by (simp add: dvd_diff_nat)
    qed
    with p step.IH show ?thesis
      by (intro dvd_levels_update [of src dst t s]) auto
  qed
qed

lemma unat_gcd_w: "unat (gcd_w a b) = gcd (unat a) (unat b)"
proof (induction a b rule: gcd_w.induct)
  case (1 lhs rhs)
  show ?case
  proof (cases "rhs = 0")
    case True
    then show ?thesis by (simp add: gcd_w.simps)
  next
    case False
    then have "unat (gcd_w lhs rhs) = gcd (unat rhs) (unat lhs mod unat rhs)"
      using 1 by (simp add: gcd_w.simps [of lhs rhs] unat_mod)
    then show ?thesis by (simp add: gcd.commute gcd_red_nat [symmetric])
  qed
qed

lemma unat_gcd_w3: "unat (gcd_w3 a b c) = gcd (gcd (unat a) (unat b)) (unat c)"
  by (simp add: gcd_w3_def unat_gcd_w)

lemma gcd_w3_dvd:
  "unat (gcd_w3 x y z) dvd unat x" "unat (gcd_w3 x y z) dvd unat y" "unat (gcd_w3 x y z) dvd unat z"
  unfolding unat_gcd_w3
  by (meson dvd_trans gcd_dvd1 gcd_dvd2)+

lemma word_mod_dvd:
  assumes "unat g dvd unat (t :: water)"
  shows "t mod g = 0"
proof -
  have "unat (t mod g) = unat t mod unat g" by (rule unat_mod)
  also have "\<dots> = 0" using assms by (cases "unat g = 0") auto
  finally show ?thesis by (simp add: unat_eq_0)
qed

lemma gcd_blocks_target:
  assumes "target mod gcd_w3 x y z \<noteq> 0" "reachable (VesselsState x y z) s"
  shows "\<not> contains s target"
proof
  assume "contains s target"
  then obtain i where i: "i < 3" "lvl s i = unat target" by (auto simp: contains_lvl)
  have "\<forall>i<3. unat (gcd_w3 x y z) dvd lvl (VesselsState x y z) i"
    by (simp add: all_less_3 gcd_w3_dvd)
  from reachable_dvd [OF this assms(2)] i have "unat (gcd_w3 x y z) dvd unat target" by auto
  then have "target mod gcd_w3 x y z = 0" by (rule word_mod_dvd)
  with assms(1) show False by simp
qed

section \<open>The counters stay in range\<close>

lemma scan_links_back:
  assumes l: "links_back h" and c: "\<forall>(t, j) \<in> set cs. j < length h"
    and sc: "scan target step cs h vis = (r, h', vis')"
  shows "links_back h'"
proof -
  from scan_grows [OF sc] obtain new where g: "h' = h @ new" by (auto simp: grows_def)
  note n = scan_new_entries [OF sc g]
  show ?thesis unfolding links_back_def
  proof (intro allI impI)
    fix k assume k: "k < length h'"
    show "- 1 \<le> snd (h' ! k) \<and> snd (h' ! k) < int k"
    proof (cases "k < length h")
      case True
      with l show ?thesis by (simp add: links_back_def g nth_append)
    next
      case False
      with k g have "h' ! k \<in> set new" by (auto simp: nth_append)
      with n obtain t j where tj: "h' ! k = (t, int j)" "(t, j) \<in> set cs" by auto
      with c have "j < length h" by auto
      with False tj show ?thesis by simp
    qed
  qed
qed

lemma cands_in_range: "\<forall>(t, j) \<in> set (cands volumes h [p..<length h]). j < length h"
  by (auto simp: in_cands)

lemma solve_loop_links_back:
  "links_back h \<Longrightarrow> solve_loop volumes target step p h vis = (res, h', vis') \<Longrightarrow> links_back h'"
proof (induction volumes target step p h vis rule: solve_loop.induct)
  case (1 volumes target step old_ptr h vis)
  show ?case
  proof (cases "old_ptr = length h")
    case True
    with "1.prems" show ?thesis by (simp add: solve_loop_exit)
  next
    case False
    obtain r1 h1 vis1 where
      fl: "frontier_loop volumes target (step + 1) old_ptr (length h) h vis = (r1, h1, vis1)"
      by (cases "frontier_loop volumes target (step + 1) old_ptr (length h) h vis") auto
    then have "scan target (step + 1) (cands volumes h [old_ptr..<length h]) h vis = (r1, h1, vis1)"
      by (simp add: frontier_loop_scan)
    from scan_links_back [OF "1.prems"(1) cands_in_range this] have l1: "links_back h1" .
    show ?thesis
    proof (cases r1)
      case None
      with "1.prems"(2) False fl
      have "solve_loop volumes target (step + 1) (length h) h1 vis1 = (res, h', vis')"
        by (simp add: solve_loop_round)
      from "1.IH" [OF False fl [symmetric] _ _ l1 this] None show ?thesis by simp
    next
      case (Some a)
      with "1.prems"(2) False fl have "h' = h1" by (simp add: solve_loop_round)
      with l1 show ?thesis by simp
    qed
  qed
qed

text \<open>The counter never exceeds the number of expanded entries.\<close>

lemma solve_loop_step_bound:
  "k \<le> p \<Longrightarrow> p \<le> length h \<Longrightarrow> step = int k \<Longrightarrow>
   solve_loop volumes target step p h vis = (Inr r, h', vis') \<Longrightarrow> r < int (length h')"
proof (induction volumes target step p h vis arbitrary: k rule: solve_loop.induct)
  case (1 volumes target step old_ptr h vis)
  show ?case
  proof (cases "old_ptr = length h")
    case True
    with "1.prems" show ?thesis by (simp add: solve_loop_exit)
  next
    case False
    with "1.prems" have lt: "k < length h" by simp
    obtain r1 h1 vis1 where
      fl: "frontier_loop volumes target (step + 1) old_ptr (length h) h vis = (r1, h1, vis1)"
      by (cases "frontier_loop volumes target (step + 1) old_ptr (length h) h vis") auto
    then have sc: "scan target (step + 1) (cands volumes h [old_ptr..<length h]) h vis =
        (r1, h1, vis1)"
      by (simp add: frontier_loop_scan)
    from scan_grows [OF sc] obtain new where g: "h1 = h @ new" by (auto simp: grows_def)
    show ?thesis
    proof (cases r1)
      case None
      with "1.prems"(4) False fl
      have run: "solve_loop volumes target (step + 1) (length h) h1 vis1 = (Inr r, h', vis')"
        by (simp add: solve_loop_round)
      have "Suc k \<le> length h" "length h \<le> length h1" "step + 1 = int (Suc k)"
        using lt g "1.prems"(3) by simp_all
      from "1.IH" [OF False fl [symmetric] _ _ this run] None show ?thesis by simp
    next
      case (Some a)
      with "1.prems"(4) False fl have eq: "a = Inr r" "h' = h1" by (simp_all add: solve_loop_round)
      from scan_Some [OF sc [unfolded Some g] refl] have "new \<noteq> []"
        "a = outcome (step + 1) (h @ new)" by simp_all
      with eq have "r = step + 1" "length h < length h'"
        by (auto simp: outcome_def g split: sum.splits)
      with lt "1.prems"(3) show ?thesis by simp
    qed
  qed
qed

lemma solve_water_int_range:
  assumes "target \<noteq> 0" "solve_water target sv = (Inr r, sv')"
  shows "r < int (length (m_history sv')) \<and> links_back (m_history sv') \<and>
     length (m_history sv') \<le>
       (lvl (m_volumes sv) 0 + 1) * (lvl (m_volumes sv) 1 + 1) * (lvl (m_volumes sv) 2 + 1)"
proof -
  let ?V = "m_volumes sv"
  let ?h0 = "[(VesselsState 0 0 0, - 1 :: int)]"
  obtain res h' vis' where
    run: "solve_loop ?V target 0 0 ?h0 (insert ?V (insert (VesselsState 0 0 0) {})) = (res, h', vis')"
    by (cases "solve_loop ?V target 0 0 ?h0 (insert ?V (insert (VesselsState 0 0 0) {}))") auto
  with assms have eq: "res = Inr r" "m_history sv' = h'"
    by (auto simp: solve_water_nonzero)
  have l0: "links_back ?h0" by (simp add: links_back_def)
  from solve_loop_links_back [OF l0 run] have 1: "links_back h'" .
  from solve_loop_step_bound [OF _ _ _ run [unfolded eq(1)], of 0] have 2: "r < int (length h')"
    by simp
  from solve_water_correct [OF assms] have "hist_ok ?V (m_history sv') (m_visited sv')" by simp
  from hist_ok_length [OF this] 1 2 show ?thesis by (simp add: eq)
qed

section \<open>Two scenarios, evaluated\<close>

text \<open>
  Capacities 3, 5, 8 and target 4 are solved in 6 steps; capacities 1, 1, 1 and target 1
  in one step.
\<close>

lemma scenario_358_4: "fst (solve_water 4 (solver (VesselsState 3 5 8))) = Inr 6"
  by code_simp

lemma scenario_111_1: "fst (solve_water 1 (solver (VesselsState 1 1 1))) = Inr 1"
  by code_simp

section \<open>Claims about the state model\<close>

text \<open>
  Claim C3. Every state reachable from the all-empty state by repeated \<open>next_states\<close>
  has each of its three levels at most the capacity of its vessel (a level is an
  unsigned word, so it is never below 0); and \<open>next_states\<close>, which always returns,
  maps a state within bounds to states within bounds only.
\<close>

theorem bounds_invariant:
  "(reachable volumes s \<longrightarrow> (\<forall>i<3. lvl s i \<le> lvl volumes i)) \<and>
   (\<exists>l. next_states s' volumes = Some l \<and>
        (in_bounds volumes s' \<longrightarrow> (\<forall>t \<in> set l. in_bounds volumes t)))"
proof (intro conjI impI)
  assume "reachable volumes s"
  then have "in_bounds volumes s" by (rule reachable_in_bounds)
  then show "\<forall>i<3. lvl s i \<le> lvl volumes i" by (simp add: in_bounds_def)
next
  from next_states_total obtain l where l: "next_states s' volumes = Some l" by blast
  have "in_bounds volumes s' \<longrightarrow> (\<forall>t \<in> set l. in_bounds volumes t)"
    using next_states_in_bounds [OF _ l] by blast
  with l show "\<exists>l. next_states s' volumes = Some l \<and>
        (in_bounds volumes s' \<longrightarrow> (\<forall>t \<in> set l. in_bounds volumes t))"
    by blast
qed

text \<open>Successors at capacities 3, 5, 8, evaluated.\<close>

lemma next_358_300:
  "next_states (VesselsState 3 0 0) (VesselsState 3 5 8) =
     Some [VesselsState 0 0 0, VesselsState 0 3 0, VesselsState 0 0 3,
           VesselsState 3 5 0, VesselsState 3 0 8]"
  by (simp add: next_states_code transfer_simps)

lemma next_358_000:
  "next_states (VesselsState 0 0 0) (VesselsState 3 5 8) =
     Some [VesselsState 3 0 0, VesselsState 0 5 0, VesselsState 0 0 8]"
  by (simp add: next_states_code transfer_simps)

lemma reachable_358_300: "reachable (VesselsState 3 5 8) (VesselsState 3 0 0)"
  by (rule reachable.step [OF reachable.start next_358_000]) simp

theorem bounds_invariant_witness:
  "reachable (VesselsState 3 5 8) (VesselsState 3 0 0) \<and>
   lvl (VesselsState 3 0 0) 0 \<le> lvl (VesselsState 3 5 8) 0 \<and>
   in_bounds (VesselsState 3 5 8) (VesselsState 3 0 0) \<and>
   next_states (VesselsState 3 0 0) (VesselsState 3 5 8) =
     Some [VesselsState 0 0 0, VesselsState 0 3 0, VesselsState 0 0 3,
           VesselsState 3 5 0, VesselsState 3 0 8] \<and>
   in_bounds (VesselsState 3 5 8) (VesselsState 0 3 0)"
  using bounds_invariant [of "VesselsState 3 5 8" "VesselsState 3 0 0" "VesselsState 3 0 0"]
    reachable_358_300
  by (simp add: next_358_300)

text \<open>
  Claim C4. In a state within bounds, for distinct vessels \<open>src\<close> and \<open>dst\<close> with water
  in \<open>src\<close> and room in \<open>dst\<close>, \<open>transfer\<close> returns a state: when the content of
  \<open>src\<close> fits the free room of \<open>dst\<close>, \<open>src\<close> is empty and \<open>dst\<close> has gained that
  content; otherwise \<open>dst\<close> is full and \<open>src\<close> has lost exactly the free room; the third
  vessel is unchanged. Levels are read as natural numbers: nothing wraps around.
\<close>

theorem transfer_pour:
  assumes "in_bounds volumes s" and "src < 3" and "dst < 3" and "src \<noteq> dst"
    and "0 < lvl s src" and "lvl s dst < lvl volumes dst"
  shows "\<exists>r. transfer src dst volumes s = Some r \<and>
     (lvl s src \<le> lvl volumes dst - lvl s dst \<longrightarrow>
        lvl r src = 0 \<and> lvl r dst = lvl s dst + lvl s src) \<and>
     (\<not> lvl s src \<le> lvl volumes dst - lvl s dst \<longrightarrow>
        lvl r dst = lvl volumes dst \<and> lvl r src = lvl s src - (lvl volumes dst - lvl s dst)) \<and>
     (\<forall>k<3. k \<noteq> src \<longrightarrow> k \<noteq> dst \<longrightarrow> lvl r k = lvl s k)"
  using assms(1-4) by (rule transfer_spec)

lemma transfer_358_346:
  "transfer 0 1 (VesselsState 3 5 8) (VesselsState 3 4 6) = Some (VesselsState 2 5 6)"
  by code_simp

theorem transfer_pour_witness:
  "in_bounds (VesselsState 3 5 8) (VesselsState 3 4 6) \<and> (0::nat) < 3 \<and> (1::nat) < 3 \<and>
   0 < lvl (VesselsState 3 4 6) 0 \<and> lvl (VesselsState 3 4 6) 1 < lvl (VesselsState 3 5 8) 1 \<and>
   transfer 0 1 (VesselsState 3 5 8) (VesselsState 3 4 6) = Some (VesselsState 2 5 6) \<and>
   lvl (VesselsState 2 5 6) 1 = lvl (VesselsState 3 5 8) 1 \<and>
   lvl (VesselsState 2 5 6) 0 = lvl (VesselsState 3 4 6) 0 - (lvl (VesselsState 3 5 8) 1 - lvl (VesselsState 3 4 6) 1) \<and>
   lvl (VesselsState 2 5 6) 2 = lvl (VesselsState 3 4 6) 2"
  using transfer_pour [of "VesselsState 3 5 8" "VesselsState 3 4 6" 0 1]
  by (simp add: transfer_358_346 [unfolded One_nat_def])

text \<open>
  Claim C5. For a state within bounds, every successor that \<open>next_states\<close> returns is
  a guarded Fill, Drain or Pour, and each of these is returned; a Fill of vessel \<open>v\<close>
  raises the sum of the levels by the capacity of \<open>v\<close>, a Drain of \<open>v\<close> lowers it by the
  former level of \<open>v\<close>, and a Pour leaves it unchanged.
\<close>

theorem conservation:
  assumes "in_bounds volumes s"
  shows "\<exists>l. next_states s volumes = Some l \<and>
     (\<forall>t \<in> set l. (\<exists>v. is_fill volumes s v t) \<or> (\<exists>v. is_drain s v t) \<or>
                    (\<exists>src dst. is_pour volumes s src dst t)) \<and>
     (\<forall>v t. is_fill volumes s v t \<longrightarrow> t \<in> set l \<and> total t = total s + lvl volumes v) \<and>
     (\<forall>v t. is_drain s v t \<longrightarrow> t \<in> set l \<and> total t + lvl s v = total s) \<and>
     (\<forall>src dst t. is_pour volumes s src dst t \<longrightarrow> t \<in> set l \<and> total t = total s)"
proof -
  from next_states_total obtain l where l: "next_states s volumes = Some l" by blast
  note iff = next_states_iff [OF l]
  have 1: "\<forall>t \<in> set l. (\<exists>v. is_fill volumes s v t) \<or> (\<exists>v. is_drain s v t) \<or>
                    (\<exists>src dst. is_pour volumes s src dst t)"
    using iff by blast
  have 2: "\<forall>v t. is_fill volumes s v t \<longrightarrow> t \<in> set l \<and> total t = total s + lvl volumes v"
    using iff fill_total by blast
  have 3: "\<forall>v t. is_drain s v t \<longrightarrow> t \<in> set l \<and> total t + lvl s v = total s"
    using iff drain_total by blast
  have 4: "\<forall>src dst t. is_pour volumes s src dst t \<longrightarrow> t \<in> set l \<and> total t = total s"
    using iff pour_total [OF assms] by blast
  from l 1 2 3 4 show ?thesis by blast
qed

theorem conservation_witness:
  "in_bounds (VesselsState 3 5 8) (VesselsState 3 0 0) \<and>
   is_fill (VesselsState 3 5 8) (VesselsState 3 0 0) 1 (VesselsState 3 5 0) \<and>
   total (VesselsState 3 5 0) = total (VesselsState 3 0 0) + lvl (VesselsState 3 5 8) 1 \<and>
   is_drain (VesselsState 3 0 0) 0 (VesselsState 0 0 0) \<and>
   total (VesselsState 0 0 0) + lvl (VesselsState 3 0 0) 0 = total (VesselsState 3 0 0) \<and>
   is_pour (VesselsState 3 5 8) (VesselsState 3 0 0) 0 1 (VesselsState 0 3 0) \<and>
   total (VesselsState 0 3 0) = total (VesselsState 3 0 0)"
  using conservation [of "VesselsState 3 5 8" "VesselsState 3 0 0"]
  by (simp add: is_fill_def is_drain_def is_pour_def fill_of_def drain_of_def transfer_simps)

section \<open>Claims about the hint and the hash\<close>

lemma gcd_w_zero_iff: "gcd_w a b = 0 \<longleftrightarrow> a = 0 \<and> b = 0"
proof (induction a b rule: gcd_w.induct)
  case (1 lhs rhs)
  show ?case
  proof (cases "rhs = 0")
    case True
    then show ?thesis by (simp add: gcd_w.simps)
  next
    case False
    with 1 have "gcd_w lhs rhs \<noteq> 0" by (simp add: gcd_w.simps [of lhs rhs])
    with False show ?thesis by simp
  qed
qed

lemma quick_check_div_iff:
  "quick_check volumes target = Inl Division_By_Zero \<longleftrightarrow> volumes = VesselsState 0 0 0"
  by (cases volumes) (auto simp: quick_check_def rem_w_def gcd_w3_def gcd_w_zero_iff Let_def)

text \<open>
  Claim C10. With all three capacities 0 the greatest common divisor computed by the
  quick check is 0, and the remainder \<^verbatim>\<open>target % volume_gcd\<close> is then taken with a
  zero divisor for every target, as nothing guards it; the all-zero triple is the only
  capacities triple where this happens.
\<close>

theorem quick_check_zero_divisor:
  "gcd_w3 0 0 0 = 0 \<and> rem_w target (gcd_w3 0 0 0) = Inl Division_By_Zero \<and>
   quick_check (VesselsState 0 0 0) target = Inl Division_By_Zero \<and>
   (quick_check volumes target = Inl Division_By_Zero) = (volumes = VesselsState 0 0 0)"
proof -
  have g: "gcd_w3 0 0 0 = 0" by (simp add: gcd_w3_def gcd_w_zero_iff)
  then have "rem_w target (gcd_w3 0 0 0) = Inl Division_By_Zero" by (simp add: rem_w_def)
  with g quick_check_div_iff show ?thesis by simp
qed

text \<open>
  Claim C9 (the code differs). The hash multiplies by \<open>type_max\<close>, which is 65535 and
  not 65536: the states (0, 1, 0) and (0, 0, 65535) are different and have the same
  hash, so the hash is not injective.
\<close>

theorem hash_collision:
  "hash (VesselsState 0 1 0) = hash (VesselsState 0 0 65535) \<and>
   VesselsState 0 1 0 \<noteq> VesselsState 0 0 65535 \<and>
   hash (VesselsState s0 s1 s2) = (ucast s0 * 65535 + ucast s1) * 65535 + ucast s2"
  by (simp add: hash_def type_max_def)


section \<open>Claims about the search engine\<close>

lemma solve_water_zero: "solve_water 0 sv = (Inr 0, sv)"
  by (simp add: solve_water_def)

text \<open>
  Claim C6. For every capacities triple, the all-zero one included, \<open>solve_water\<close> with
  target 0 returns 0, which is not the unsolvable marker -1, and leaves the solver as it
  was: the history and the visited set are not touched, no loop is entered.
\<close>

theorem solve_water_target_zero:
  "solve_water 0 sv = (Inr 0, sv) \<and> fst (solve_water 0 sv) \<noteq> Inr (- 1) \<and>
   m_history (snd (solve_water 0 sv)) = m_history sv \<and>
   m_visited (snd (solve_water 0 sv)) = m_visited sv \<and>
   solve_water 0 (solver (VesselsState 0 0 0)) = (Inr 0, solver (VesselsState 0 0 0))"
  by (simp add: solve_water_zero)




lemma solve_123_2:
  "solve_water 2 (solver (VesselsState 1 2 3)) =
     (Inr 1, \<lparr>m_volumes = VesselsState 1 2 3,
        m_history = [(VesselsState 0 0 0, - 1), (VesselsState 1 0 0, 0), (VesselsState 0 2 0, 0)],
        m_visited = {VesselsState 0 2 0, VesselsState 1 0 0, VesselsState 1 2 3,
                     VesselsState 0 0 0}\<rparr>)"
  by code_simp



text \<open>
  Claim C7. For a nonzero target, the search loop starts with the all-full state in the
  visited set and with the root as the only history entry; at the end the all-full
  state is still visited, no history entry but possibly the root equals it, and when a
  solution is found the printed path exists and does not contain it.
\<close>

theorem all_full_excluded:
  assumes "target \<noteq> 0" and "solve_water target sv = (res, sv')"
  shows "solve_water target sv =
      (case solve_loop (m_volumes sv) target 0 0 [(VesselsState 0 0 0, INVALID_IDX)]
              (insert (m_volumes sv) (insert (VesselsState 0 0 0) {})) of
         (r, h', vis') \<Rightarrow> (r, sv\<lparr>m_history := h', m_visited := vis'\<rparr>)) \<and>
     m_volumes sv \<in> m_visited sv' \<and>
     (\<forall>i. 0 < i \<and> i < length (m_history sv') \<longrightarrow> fst (m_history sv' ! i) \<noteq> m_volumes sv) \<and>
     (\<forall>r. res = Inr r \<and> 0 < r \<longrightarrow>
        (\<exists>rows. show_path r (m_history sv') = Inr rows \<and> m_volumes sv \<notin> set rows))"
proof (intro conjI allI impI)
  show "solve_water target sv =
      (case solve_loop (m_volumes sv) target 0 0 [(VesselsState 0 0 0, INVALID_IDX)]
              (insert (m_volumes sv) (insert (VesselsState 0 0 0) {})) of
         (r, h', vis') \<Rightarrow> (r, sv\<lparr>m_history := h', m_visited := vis'\<rparr>))"
    using assms(1) by (simp add: solve_water_nonzero INVALID_IDX_def)
next
  note c = solve_water_correct [OF assms]
  then have ok: "hist_ok (m_volumes sv) (m_history sv') (m_visited sv')" by simp
  then show "m_volumes sv \<in> m_visited sv'" by (simp add: hist_ok_def)
  show "fst (m_history sv' ! i) \<noteq> m_volumes sv"
    if "0 < i \<and> i < length (m_history sv')" for i
    using hist_ok_not_full [OF ok] that by blast
  show "\<exists>rows. show_path r (m_history sv') = Inr rows \<and> m_volumes sv \<notin> set rows"
    if r: "res = Inr r \<and> 0 < r" for r
  proof -
    from c r obtain m where m: "0 < m" "r = int m"
      "solved_at (m_volumes sv) target m (m_history sv')"
      by auto
    then obtain rows where rows: "show_path (int m) (m_history sv') = Inr rows"
      "set rows \<subseteq> fst ` set (m_history sv')"
      by (auto simp: solved_at_def)
    from m obtain m' where "m = Suc m'" by (cases m) auto
    with hist_ok_rows_not_full [OF ok _ rows(2)] m(3)
    have "m_volumes sv \<notin> set rows" by blast
    with rows m(2) show ?thesis by blast
  qed
qed

lemma show_123_2:
  "show_path 1 [(VesselsState 0 0 0, - 1), (VesselsState 1 0 0, 0), (VesselsState 0 2 0, 0)] =
     Inr [VesselsState 0 0 0, VesselsState 0 2 0]"
  by code_simp

theorem all_full_excluded_witness:
  "(2 :: water) \<noteq> 0 \<and>
   solve_water 2 (solver (VesselsState 1 2 3)) =
     (Inr 1, \<lparr>m_volumes = VesselsState 1 2 3,
        m_history = [(VesselsState 0 0 0, - 1), (VesselsState 1 0 0, 0), (VesselsState 0 2 0, 0)],
        m_visited = {VesselsState 0 2 0, VesselsState 1 0 0, VesselsState 1 2 3,
                     VesselsState 0 0 0}\<rparr>) \<and>
   VesselsState 1 2 3 \<in> {VesselsState 0 2 0, VesselsState 1 0 0, VesselsState 1 2 3,
                     VesselsState 0 0 0} \<and>
   fst ([(VesselsState 0 0 0, - 1 :: int), (VesselsState 1 0 0, 0), (VesselsState 0 2 0, 0)] ! 1)
     \<noteq> VesselsState 1 2 3 \<and>
   show_path 1 [(VesselsState 0 0 0, - 1), (VesselsState 1 0 0, 0), (VesselsState 0 2 0, 0)] =
     Inr [VesselsState 0 0 0, VesselsState 0 2 0] \<and>
   VesselsState 1 2 3 \<notin> set [VesselsState 0 0 0, VesselsState 0 2 0]"
proof -
  have nz: "(2 :: water) \<noteq> 0" by simp
  note t = all_full_excluded [OF nz solve_123_2]
  from t have "m_volumes (solver (VesselsState 1 2 3)) \<in>
      {VesselsState 0 2 0, VesselsState 1 0 0, VesselsState 1 2 3, VesselsState 0 0 0}"
    by simp
  then have a: "VesselsState 1 2 3 \<in> {VesselsState 0 2 0, VesselsState 1 0 0, VesselsState 1 2 3,
                     VesselsState 0 0 0}"
    by (simp add: solver_def)
  have b: "fst ([(VesselsState 0 0 0, - 1 :: int), (VesselsState 1 0 0, 0), (VesselsState 0 2 0, 0)] ! 1)
     \<noteq> VesselsState 1 2 3"
    by simp
  have c: "VesselsState 1 2 3 \<notin> set [VesselsState 0 0 0, VesselsState 0 2 0]" by simp
  from nz solve_123_2 a b show_123_2 c show ?thesis by (intro conjI)
qed

section \<open>Claims about the result of the search\<close>

lemma solve_water_cases:
  assumes nz: "target \<noteq> 0"
  obtains (unsolvable) sv' where "solve_water target sv = (Inr (- 1), sv')"
      "\<forall>n s. route (m_volumes sv) n s \<longrightarrow> \<not> contains s target"
    | (solved) m sv' where "0 < m" "solve_water target sv = (Inr (int m), sv')"
      "solved_at (m_volumes sv) target m (m_history sv')"
proof -
  obtain res sv' where run: "solve_water target sv = (res, sv')"
    by (cases "solve_water target sv") auto
  from solve_water_correct [OF nz run] run unsolvable solved show ?thesis by blast
qed








text \<open>
  Claim C2. For every capacities triple and every nonzero target whose remainder modulo
  the greatest common divisor of the three capacities (as \<open>gcd\<close> of the source computes
  it) is not 0, \<open>solve_water\<close> returns the unsolvable marker -1. For the all-zero
  triple the divisor is 0 and the remainder of the words is the target itself.
\<close>

theorem gcd_unsolvable:
  assumes "target \<noteq> 0" and "m_volumes sv = VesselsState c1 c2 c3"
    and "target mod gcd_w3 c1 c2 c3 \<noteq> 0"
  shows "fst (solve_water target sv) = Inr (- 1)"
  using assms(1)
proof (cases rule: solve_water_cases [of target sv])
  case (unsolvable sv')
  then show ?thesis by simp
next
  case (solved m sv')
  then have "route (m_volumes sv) m (fst (last (m_history sv')))"
    "contains (fst (last (m_history sv'))) target"
    by (simp_all add: solved_at_def)
  with gcd_blocks_target [OF assms(3), of "fst (last (m_history sv'))"]
  show ?thesis by (auto simp: assms(2) dest: route_reachable)
qed

lemma gcd_246: "gcd_w3 2 4 6 = 2"
  by code_simp

theorem gcd_unsolvable_witness:
  "(5 :: water) \<noteq> 0 \<and> m_volumes (solver (VesselsState 2 4 6)) = VesselsState 2 4 6 \<and>
   (5 :: water) mod gcd_w3 2 4 6 \<noteq> 0 \<and>
   fst (solve_water 5 (solver (VesselsState 2 4 6))) = Inr (- 1)"
proof -
  have a: "(5 :: water) \<noteq> 0" by simp
  have b: "m_volumes (solver (VesselsState 2 4 6)) = VesselsState 2 4 6" by (simp add: solver_def)
  have c: "(5 :: water) mod gcd_w3 2 4 6 \<noteq> 0" by (simp add: gcd_246)
  from a b c gcd_unsolvable [OF a b c] show ?thesis by (intro conjI)
qed

end
